theory Spec2Isabelle
  imports Complex_Main
begin

section \<open>OpenTranscriber: history manager and automatic segmentation\<close>

text \<open>
  A shallow embedding of the undo/redo system and of the automatic segmentation
  functions of \<^verbatim>\<open>src/app.js\<close> (class \<^verbatim>\<open>OpenTranscriberApp\<close>).

  Conventions of the embedding.
  \<^item> JavaScript numbers are modelled as \<open>real\<close> (integers as \<open>int\<close> or \<open>nat\<close> where the
    source only ever holds an index or a count). Rounding of IEEE doubles, \<open>NaN\<close> and
    the infinities are not represented; the one use of \<open>-Infinity\<close> (the running maximum
    of \<^verbatim>\<open>extractF0\<close>) is an \<open>option\<close>. Theorems whose statement depends on a
    division carry the hypothesis that the divisor is positive.
  \<^item> A JavaScript array is a list whose head is index 0: \<^verbatim>\<open>push\<close> appends at the end,
    \<^verbatim>\<open>pop\<close> removes the last element, \<^verbatim>\<open>shift\<close> removes the head.
  \<^item> \<^verbatim>\<open>this\<close> is an explicit state record that every method takes and returns.
    The DOM, the WaveSurfer regions and the console are not part of the state.
  \<^item> \<^verbatim>\<open>Date.now()\<close> and the random segment identifiers are arguments.
  \<^item> An exception is a value \<open>Inl e\<close> of a sum type.
  \<^item> The values handed to a progress callback are collected, in order, in a list.
\<close>

subsection \<open>Data\<close>

text \<open>An entry of \<^verbatim>\<open>this.speakerColors\<close> is represented by its index in the palette.\<close>

type_synonym color = nat

definition speakerColors_length :: int where
  "speakerColors_length = 8"

text \<open>JavaScript's \<^verbatim>\<open>%\<close> takes the sign of the dividend.\<close>

definition js_rem :: "int \<Rightarrow> int \<Rightarrow> int" where
  "js_rem a b = sgn a * (\<bar>a\<bar> mod \<bar>b\<bar>)"

text \<open>
  \<^verbatim>\<open>this.speakerColors[(speakerNum - 1) % this.speakerColors.length]\<close>; a negative
  index reads \<^verbatim>\<open>undefined\<close>, which is \<open>None\<close>.
\<close>

definition speakerColor :: "int \<Rightarrow> color option" where
  "speakerColor speakerNum =
     (let r = js_rem (speakerNum - 1) speakerColors_length
      in if 0 \<le> r then Some (nat r) else None)"

record segment =
  seg_id :: string
  seg_start :: real
  seg_end :: real
  seg_speaker :: int
  seg_transcription :: string
  seg_color :: "color option"

record speaker_track =
  speakerNum :: int
  track_name :: string

text \<open>The object literals stored on the undo and redo stacks.\<close>

record saved_segment =
  sv_id :: string
  sv_start :: real
  sv_end :: real
  sv_speaker :: int
  sv_transcription :: string

record saved_speaker =
  sp_id :: int
  sp_name :: string

record saved_state =
  sv_action :: string
  sv_timestamp :: nat
  sv_segments :: "saved_segment list"
  sv_speakers :: "saved_speaker list"

text \<open>A decoded audio buffer: the samples of channel 0 and the sample rate.\<close>

record audio_buffer =
  channelData :: "real list"
  sampleRate :: real

record app =
  speakerTracks :: "speaker_track list"
  segments :: "segment list"
  selectedSegment :: "string option"
  audioBuffer :: "audio_buffer option"
  undoStack :: "saved_state list"
  redoStack :: "saved_state list"

definition maxHistorySize :: nat where
  "maxHistorySize = 50"

text \<open>The state the constructor leaves, before any speaker track is added.\<close>

definition new_app :: app where
  "new_app = \<lparr>speakerTracks = [], segments = [], selectedSegment = None,
               audioBuffer = None, undoStack = [], redoStack = []\<rparr>"

text \<open>The JavaScript exceptions that the modelled code can throw.\<close>

datatype js_error = TypeError | RangeError

subsection \<open>Undo / redo\<close>

definition save_segment :: "segment \<Rightarrow> saved_segment" where
  "save_segment s =
     \<lparr>sv_id = seg_id s, sv_start = seg_start s, sv_end = seg_end s,
      sv_speaker = seg_speaker s, sv_transcription = seg_transcription s\<rparr>"

definition save_speaker :: "speaker_track \<Rightarrow> saved_speaker" where
  "save_speaker t = \<lparr>sp_id = speakerNum t, sp_name = track_name t\<rparr>"

text \<open>
  The object literal that \<^verbatim>\<open>saveState\<close>, \<^verbatim>\<open>undo\<close> and \<^verbatim>\<open>redo\<close> each build
  from the live state (the source writes it out three times).
\<close>

definition currentState :: "string \<Rightarrow> nat \<Rightarrow> app \<Rightarrow> saved_state" where
  "currentState actionName now this =
     \<lparr>sv_action = actionName, sv_timestamp = now,
      sv_segments = map save_segment (segments this),
      sv_speakers = map save_speaker (speakerTracks this)\<rparr>"

definition saveState :: "string \<Rightarrow> nat \<Rightarrow> app \<Rightarrow> app" where
  "saveState actionName now this =
     (let state = currentState actionName now this;
          pushed = undoStack this @ [state];
          limited = (if length pushed > maxHistorySize then tl pushed else pushed)
      in this\<lparr>undoStack := limited, redoStack := []\<rparr>)"

definition closeEditor :: "app \<Rightarrow> app" where
  "closeEditor this = this\<lparr>selectedSegment := None\<rparr>"

definition restore_segment :: "saved_segment \<Rightarrow> segment" where
  "restore_segment s =
     \<lparr>seg_id = sv_id s, seg_start = sv_start s, seg_end = sv_end s,
      seg_speaker = sv_speaker s, seg_transcription = sv_transcription s,
      seg_color = speakerColor (sv_speaker s)\<rparr>"

text \<open>
  \<^verbatim>\<open>const track = this.speakerTracks.find(t => t.speakerNum === spk.id);
  if (track) track.name = spk.name\<close>: the first track with that number is renamed.
\<close>

fun restore_speaker :: "saved_speaker \<Rightarrow> speaker_track list \<Rightarrow> speaker_track list" where
  "restore_speaker spk [] = []"
| "restore_speaker spk (t # ts) =
     (if speakerNum t = sp_id spk then t\<lparr>track_name := sp_name spk\<rparr> # ts
      else t # restore_speaker spk ts)"

text \<open>
  \<^verbatim>\<open>redrawAllSegments\<close>. The regions it clears and adds are outside the state; what
  remains is that it reads \<^verbatim>\<open>seg.color.bg\<close> of every segment in turn, a TypeError at
  the first segment whose colour is \<^verbatim>\<open>undefined\<close>. (The colour of a speaker track is
  always defined: the constructor of a track reads \<^verbatim>\<open>this.color.border\<close>.)
\<close>

definition redrawAllSegments :: "app \<Rightarrow> js_error + unit" where
  "redrawAllSegments this =
     (if list_all (\<lambda>seg. seg_color seg \<noteq> None) (segments this) then Inr () else Inl TypeError)"

text \<open>
  \<^verbatim>\<open>restoreState\<close>: the state it leaves, and whether it returned or threw. The
  segments and the speaker names are replaced before \<^verbatim>\<open>redrawAllSegments\<close> is called,
  so they are replaced also when it throws.
\<close>

definition restoreState :: "saved_state \<Rightarrow> app \<Rightarrow> (js_error + unit) \<times> app" where
  "restoreState state this =
     (let this1 = closeEditor this;
          this2 = this1\<lparr>segments := map restore_segment (sv_segments state)\<rparr>;
          this3 = this2\<lparr>speakerTracks :=
                    fold restore_speaker (sv_speakers state) (speakerTracks this2)\<rparr>
      in (redrawAllSegments this3, this3))"

text \<open>The toast a call shows, which is all the caller learns from a call that returns.\<close>

datatype toast = Nothing_to_undo | Undo_of string | Nothing_to_redo | Redo_applied

text \<open>
  \<^verbatim>\<open>undo\<close> and \<^verbatim>\<open>redo\<close>: the toast shown, or the error thrown by
  \<^verbatim>\<open>restoreState\<close> (nothing catches it, and no toast is shown), and the state left.
\<close>

definition undo :: "nat \<Rightarrow> app \<Rightarrow> (js_error + toast) \<times> app" where
  "undo now this =
     (if length (undoStack this) = 0 then (Inr Nothing_to_undo, this)
      else
        let current = currentState ''before_undo'' now this;
            this1 = this\<lparr>redoStack := redoStack this @ [current]\<rparr>;
            previousState = last (undoStack this1);
            this2 = this1\<lparr>undoStack := butlast (undoStack this1)\<rparr>;
            restored = restoreState previousState this2
        in (case fst restored of
              Inl e \<Rightarrow> Inl e
            | Inr _ \<Rightarrow> Inr (Undo_of (sv_action previousState)),
            snd restored))"

definition redo :: "nat \<Rightarrow> app \<Rightarrow> (js_error + toast) \<times> app" where
  "redo now this =
     (if length (redoStack this) = 0 then (Inr Nothing_to_redo, this)
      else
        let current = currentState ''before_redo'' now this;
            this1 = this\<lparr>undoStack := undoStack this @ [current]\<rparr>;
            redoState = last (redoStack this1);
            this2 = this1\<lparr>redoStack := butlast (redoStack this1)\<rparr>;
            restored = restoreState redoState this2
        in (case fst restored of
              Inl e \<Rightarrow> Inl e
            | Inr _ \<Rightarrow> Inr Redo_applied,
            snd restored))"

text \<open>
  A history operation, with the clock reading it is given, and the state it leaves
  (also when \<^verbatim>\<open>undo\<close> or \<^verbatim>\<open>redo\<close> throws).
\<close>

datatype history_op = Capture string nat | Undo nat | Redo nat

fun apply_history_op :: "history_op \<Rightarrow> app \<Rightarrow> app" where
  "apply_history_op (Capture actionName now) this = saveState actionName now this"
| "apply_history_op (Undo now) this = snd (undo now this)"
| "apply_history_op (Redo now) this = snd (redo now this)"

definition run_history :: "history_op list \<Rightarrow> app \<Rightarrow> app" where
  "run_history ops this = fold apply_history_op ops this"

text \<open>What renaming does to one track.\<close>

definition rename_track :: "saved_speaker \<Rightarrow> speaker_track \<Rightarrow> speaker_track" where
  "rename_track spk t = (if speakerNum t = sp_id spk then t\<lparr>track_name := sp_name spk\<rparr> else t)"


text \<open>A small project: two speaker tracks and one segment.\<close>

definition demo_app :: app where
  "demo_app = new_app\<lparr>speakerTracks :=
       [\<lparr>speakerNum = 1, track_name = ''Speaker 1''\<rparr>, \<lparr>speakerNum = 2, track_name = ''Speaker 2''\<rparr>],
     segments := [\<lparr>seg_id = ''seg_1'', seg_start = 0, seg_end = 1, seg_speaker = 1,
                   seg_transcription = ''hello'', seg_color = Some 0\<rparr>]\<rparr>"

text \<open>
  The state in which \<^verbatim>\<open>undo()\<close> is called in the examples: A and B have been captured
  in the project \<open>this\<close>, and since then the segments and the speaker tracks have become
  \<open>segs\<close> and \<open>tracks\<close>.
\<close>

definition edited_after_captures :: "app \<Rightarrow> segment list \<Rightarrow> speaker_track list \<Rightarrow> app" where
  "edited_after_captures this segs tracks =
     (saveState ''B'' 2 (saveState ''A'' 1 this))\<lparr>segments := segs, speakerTracks := tracks\<rparr>"

text \<open>
  A project whose two speaker tracks both carry the number 1 (as \<^verbatim>\<open>importProject\<close>
  makes them from a file that lists the speaker 1 twice), and a project with a segment of
  speaker 0, whose colour is undefined (as \<^verbatim>\<open>createSegment\<close> leaves it in the list of
  segments when an imported file has such a segment).
\<close>

definition twin_app :: app where
  "twin_app = new_app\<lparr>speakerTracks :=
       [\<lparr>speakerNum = 1, track_name = ''a''\<rparr>, \<lparr>speakerNum = 1, track_name = ''b''\<rparr>]\<rparr>"

definition speaker0_app :: app where
  "speaker0_app = new_app\<lparr>segments :=
       [\<lparr>seg_id = ''seg_0'', seg_start = 0, seg_end = 1, seg_speaker = 0,
         seg_transcription = [], seg_color = None\<rparr>]\<rparr>"

subsection \<open>Provisional segments and parameters\<close>

text \<open>The speaker tag of a provisional segment: \<open>Spk n\<close> is the string \<^verbatim>\<open>`spk${n}`\<close>.\<close>

datatype speaker_tag = Spk nat

record provisional_segment =
  ps_start :: real
  ps_end :: real
  ps_speaker :: speaker_tag
  ps_f0 :: "real option"

text \<open>
  The \<^verbatim>\<open>params\<close> object that \<^verbatim>\<open>autoSegment\<close> builds; \<open>pauseTolerance\<close> is in
  milliseconds.
\<close>

record seg_params =
  silenceThreshold :: real
  minSegmentDuration :: real
  pauseTolerance :: real
  numSpeakers :: int
  f0Min :: real
  f0Max :: real
  f0Confidence :: real

text \<open>\<^verbatim>\<open>Math.round\<close> rounds half up, as \<^const>\<open>round\<close> does.\<close>

definition Math_round :: "real \<Rightarrow> real" where
  "Math_round x = of_int (round x)"

text \<open>
  \<^verbatim>\<open>i % stride === 0\<close>; for \<open>stride = 0\<close> the remainder is \<open>NaN\<close> and the test fails.
\<close>

definition at_stride :: "nat \<Rightarrow> nat \<Rightarrow> bool" where
  "at_stride stride i = (stride \<noteq> 0 \<and> i mod stride = 0)"

subsection \<open>Segmentation by silence\<close>

text \<open>The local variables of \<^verbatim>\<open>segmentBySilence\<close>, and the values passed to \<^verbatim>\<open>onProgress\<close>.\<close>

record silence_scan =
  sc_segments :: "provisional_segment list"
  inSpeech :: bool
  segmentStart :: real
  silenceStart :: real
  sc_progress :: "real list"

text \<open>
  The body of the \<^verbatim>\<open>for\<close> loop at index \<open>i\<close>, on the sample \<open>x = channelData[i]\<close>
  of a buffer of \<open>n\<close> samples. The source's stride is the literal 100000; it is an
  argument here.
\<close>

definition silence_step ::
  "nat \<Rightarrow> nat \<Rightarrow> real \<Rightarrow> real \<Rightarrow> real \<Rightarrow> real \<Rightarrow> nat \<Rightarrow> real \<Rightarrow> silence_scan \<Rightarrow> silence_scan" where
  "silence_step stride n rate threshold minDuration pauseTol i x st =
     (let time = real i / rate;
          amplitude = \<bar>x\<bar>;
          st1 = (if at_stride stride i
                 then st\<lparr>sc_progress := sc_progress st @ [Math_round ((real i / real n) * 100)]\<rparr>
                 else st)
      in if amplitude > threshold then
           (let st2 = (if \<not> inSpeech st1 then st1\<lparr>segmentStart := time, inSpeech := True\<rparr> else st1)
            in st2\<lparr>silenceStart := time\<rparr>)
         else if inSpeech st1 \<and> (time - silenceStart st1) > pauseTol then
           (let duration = silenceStart st1 - segmentStart st1;
                st2 = (if duration \<ge> minDuration
                       then st1\<lparr>sc_segments := sc_segments st1 @
                              [\<lparr>ps_start = segmentStart st1, ps_end = silenceStart st1,
                                ps_speaker = Spk 1, ps_f0 = None\<rparr>]\<rparr>
                       else st1)
            in st2\<lparr>inSpeech := False\<rparr>)
         else st1)"

text \<open>The loop from index \<open>i\<close> on; the list holds the samples from \<open>i\<close> to the end.\<close>

fun silence_loop ::
  "nat \<Rightarrow> nat \<Rightarrow> real \<Rightarrow> real \<Rightarrow> real \<Rightarrow> real \<Rightarrow> nat \<Rightarrow> real list \<Rightarrow> silence_scan \<Rightarrow> silence_scan" where
  "silence_loop stride n rate threshold minDuration pauseTol i [] st = st"
| "silence_loop stride n rate threshold minDuration pauseTol i (x # xs) st =
     silence_loop stride n rate threshold minDuration pauseTol (Suc i) xs
       (silence_step stride n rate threshold minDuration pauseTol i x st)"

definition silence_init :: silence_scan where
  "silence_init = \<lparr>sc_segments = [], inSpeech = False, segmentStart = 0, silenceStart = 0,
                    sc_progress = []\<rparr>"

text \<open>
  \<^verbatim>\<open>segmentBySilence\<close> with the stride as an argument. The result is the list of the
  values passed to \<^verbatim>\<open>onProgress\<close> and the returned segments.
\<close>

definition segmentBySilence_every ::
  "nat \<Rightarrow> audio_buffer \<Rightarrow> seg_params \<Rightarrow> real list \<times> provisional_segment list" where
  "segmentBySilence_every stride buf params =
     (let chan = channelData buf;
          rate = sampleRate buf;
          threshold = silenceThreshold params;
          minDuration = minSegmentDuration params;
          pauseTol = pauseTolerance params / 1000;
          st = silence_loop stride (length chan) rate threshold minDuration pauseTol 0 chan
                 silence_init;
          segs = (if inSpeech st then
                    (let duration = (real (length chan) / rate) - segmentStart st
                     in if duration \<ge> minDuration
                        then sc_segments st @
                               [\<lparr>ps_start = segmentStart st, ps_end = real (length chan) / rate,
                                 ps_speaker = Spk 1, ps_f0 = None\<rparr>]
                        else sc_segments st)
                  else sc_segments st)
      in (sc_progress st, segs))"

definition segmentBySilence ::
  "audio_buffer \<Rightarrow> seg_params \<Rightarrow> real list \<times> provisional_segment list" where
  "segmentBySilence = segmentBySilence_every 100000"

text \<open>The state of the scan without the progress values.\<close>

definition scan_core :: "silence_scan \<Rightarrow> provisional_segment list \<times> bool \<times> real \<times> real" where
  "scan_core st = (sc_segments st, inSpeech st, segmentStart st, silenceStart st)"

text \<open>Parameters for the examples: only the three the silence segmenter reads vary.\<close>

definition silence_params :: "real \<Rightarrow> real \<Rightarrow> real \<Rightarrow> seg_params" where
  "silence_params threshold minDuration pauseTol =
     \<lparr>silenceThreshold = threshold, minSegmentDuration = minDuration, pauseTolerance = pauseTol,
      numSpeakers = 2, f0Min = 75, f0Max = 300, f0Confidence = 1 / 4\<rparr>"

subsection \<open>Frame features\<close>

definition calculateEnergy :: "real list \<Rightarrow> real" where
  "calculateEnergy frame = (\<Sum>x\<leftarrow>frame. x * x) / real (length frame)"

fun zero_crossings :: "real list \<Rightarrow> nat" where
  "zero_crossings (a # b # rest) =
     (if (b \<ge> 0 \<and> a < 0) \<or> (b < 0 \<and> a \<ge> 0) then 1 else 0) + zero_crossings (b # rest)"
| "zero_crossings rest = 0"

definition calculateZCR :: "real list \<Rightarrow> real" where
  "calculateZCR frame = real (zero_crossings frame) / real (length frame)"

definition calculateSpectralCentroid :: "real list \<Rightarrow> real \<Rightarrow> real" where
  "calculateSpectralCentroid frame rate =
     (let weightedSum = (\<Sum>(i, x)\<leftarrow>enumerate 0 frame. (real i * rate) / real (length frame) * \<bar>x\<bar>);
          total = (\<Sum>x\<leftarrow>frame. \<bar>x\<bar>)
      in if total > 0 then weightedSum / total else 0)"

subsection \<open>Segmentation by voice activity\<close>

record feature =
  ft_time :: real
  ft_energy :: real
  ft_zcr :: real
  ft_spectralCentroid :: real
  isVoiced :: bool

text \<open>The local variables of the frame loop, and the values it passes to \<^verbatim>\<open>onProgress\<close>.\<close>

record vad_scan =
  vs_features :: "feature list"
  vs_progress :: "real list"

text \<open>The feature object of the frame that starts at sample \<open>i\<close>.\<close>

definition frame_feature :: "nat \<Rightarrow> real \<Rightarrow> real list \<Rightarrow> nat \<Rightarrow> feature" where
  "frame_feature frameSize rate chan i =
     (let frame = take frameSize (drop i chan);
          energy = calculateEnergy frame
      in \<lparr>ft_time = real i / rate, ft_energy = energy, ft_zcr = calculateZCR frame,
          ft_spectralCentroid = calculateSpectralCentroid frame rate,
          isVoiced = (energy > 1 / 100)\<rparr>)"

definition vad_step :: "nat \<Rightarrow> real \<Rightarrow> real list \<Rightarrow> nat \<Rightarrow> vad_scan \<Rightarrow> vad_scan" where
  "vad_step frameSize rate chan i st =
     (let st1 = st\<lparr>vs_features := vs_features st @ [frame_feature frameSize rate chan i]\<rparr>
      in if at_stride 10000 i
         then st1\<lparr>vs_progress := vs_progress st1 @
                  [10 + Math_round ((real i / real (length chan)) * 40)]\<rparr>
         else st1)"

text \<open>
  \<^verbatim>\<open>for (let i = 0; i < channelData.length - frameSize; i += hopSize)\<close>. With
  \<open>hopSize = 0\<close> the source's loop never ends once entered; this function is only called
  with a positive \<open>hopSize\<close>, and stops at once otherwise.
\<close>

function vad_loop :: "nat \<Rightarrow> nat \<Rightarrow> real \<Rightarrow> real list \<Rightarrow> nat \<Rightarrow> vad_scan \<Rightarrow> vad_scan" where
  "vad_loop frameSize hopSize rate chan i st =
     (if 0 < hopSize \<and> int i < int (length chan) - int frameSize
      then vad_loop frameSize hopSize rate chan (i + hopSize) (vad_step frameSize rate chan i st)
      else st)"
  by pat_completeness auto
termination
  by (relation "measure (\<lambda>(frameSize, hopSize, rate, chan, i, st). length chan - i)") auto

declare vad_loop.simps [simp del]

text \<open>The values that \<open>i\<close> takes in the frame loop, from \<open>i\<close> on, for a buffer of \<open>n\<close> samples.\<close>

function frame_starts :: "nat \<Rightarrow> nat \<Rightarrow> nat \<Rightarrow> nat \<Rightarrow> nat list" where
  "frame_starts frameSize hopSize n i =
     (if 0 < hopSize \<and> int i < int n - int frameSize
      then i # frame_starts frameSize hopSize n (i + hopSize)
      else [])"
  by pat_completeness auto
termination
  by (relation "measure (\<lambda>(frameSize, hopSize, n, i). n - i)") auto

declare frame_starts.simps [simp del]

text \<open>\<^verbatim>\<open>currentSegment\<close>: \<^verbatim>\<open>null\<close> or an object with a start time and the frames of the run.\<close>

record open_run =
  or_start :: real
  or_features :: "feature list"

text \<open>The callback of \<^verbatim>\<open>features.forEach\<close>, on the pair of \<^verbatim>\<open>segments\<close> and \<^verbatim>\<open>currentSegment\<close>.\<close>

definition vad_group_step ::
  "feature \<Rightarrow> provisional_segment list \<times> open_run option
     \<Rightarrow> provisional_segment list \<times> open_run option" where
  "vad_group_step feat st =
     (case st of (segs, currentSegment) \<Rightarrow>
        if isVoiced feat then
          (let cur = (case currentSegment of
                        None \<Rightarrow> \<lparr>or_start = ft_time feat, or_features = []\<rparr>
                      | Some c \<Rightarrow> c)
           in (segs, Some (cur\<lparr>or_features := or_features cur @ [feat]\<rparr>)))
        else
          ((case currentSegment of
              None \<Rightarrow> segs
            | Some c \<Rightarrow>
                if length (or_features c) > 10
                then segs @ [\<lparr>ps_start = or_start c, ps_end = ft_time (last (or_features c)),
                              ps_speaker = Spk 1, ps_f0 = None\<rparr>]
                else segs),
           None))"

definition vad_segments :: "feature list \<Rightarrow> provisional_segment list" where
  "vad_segments features = fst (fold vad_group_step features ([], None))"

definition vad_frameSize :: "audio_buffer \<Rightarrow> nat" where
  "vad_frameSize buf = nat \<lfloor>sampleRate buf * (25 / 1000)\<rfloor>"

definition vad_hopSize :: "audio_buffer \<Rightarrow> nat" where
  "vad_hopSize buf = nat \<lfloor>sampleRate buf * (10 / 1000)\<rfloor>"

definition vad_scan_of :: "audio_buffer \<Rightarrow> vad_scan" where
  "vad_scan_of buf =
     vad_loop (vad_frameSize buf) (vad_hopSize buf) (sampleRate buf) (channelData buf) 0
       \<lparr>vs_features = [], vs_progress = []\<rparr>"

text \<open>The array \<^verbatim>\<open>features\<close> after the frame loop.\<close>

definition vad_features :: "audio_buffer \<Rightarrow> feature list" where
  "vad_features buf = vs_features (vad_scan_of buf)"

text \<open>
  \<^verbatim>\<open>segmentByVADClustering\<close>: the values passed to \<^verbatim>\<open>onProgress\<close> and the returned
  segments, or \<open>None\<close> when the frame loop is entered with \<open>hopSize = 0\<close> and so never ends.
\<close>

definition segmentByVADClustering ::
  "audio_buffer \<Rightarrow> seg_params \<Rightarrow> (real list \<times> provisional_segment list) option" where
  "segmentByVADClustering buf params =
     (if vad_hopSize buf = 0 \<and> 0 < int (length (channelData buf)) - int (vad_frameSize buf)
      then None
      else Some ([10] @ vs_progress (vad_scan_of buf) @ [50] @ [100],
                 vad_segments (vad_features buf)))"

text \<open>
  The maximal runs of consecutive frames that satisfy \<open>P\<close>, in order, and the segment that
  spans a run.
\<close>

function runs_of :: "('a \<Rightarrow> bool) \<Rightarrow> 'a list \<Rightarrow> 'a list list" where
  "runs_of P [] = []"
| "runs_of P (x # xs) =
     (if P x then (x # takeWhile P xs) # runs_of P (dropWhile P xs) else runs_of P xs)"
  by pat_completeness auto
termination
  by (relation "measure (\<lambda>(P, xs). length xs)") (auto simp: length_dropWhile_le less_Suc_eq_le)

definition run_segment :: "feature list \<Rightarrow> provisional_segment" where
  "run_segment r = \<lparr>ps_start = ft_time (hd r), ps_end = ft_time (last r),
                     ps_speaker = Spk 1, ps_f0 = None\<rparr>"

text \<open>The runs that a later frame outside the run closes: all but a run that ends the list.\<close>

function closed_runs :: "('a \<Rightarrow> bool) \<Rightarrow> 'a list \<Rightarrow> 'a list list" where
  "closed_runs P [] = []"
| "closed_runs P (x # xs) =
     (if P x then
        (if dropWhile P xs = [] then []
         else (x # takeWhile P xs) # closed_runs P (dropWhile P xs))
      else closed_runs P xs)"
  by pat_completeness auto
termination
  by (relation "measure (\<lambda>(P, xs). length xs)") (auto simp: length_dropWhile_le less_Suc_eq_le)


text \<open>A buffer at 100 Hz: 12 loud samples, 3 silent ones, 14 loud ones up to the end.\<close>

definition two_bursts :: audio_buffer where
  "two_bursts = \<lparr>channelData = replicate 12 1 @ [0, 0, 0] @ replicate 14 1, sampleRate = 100\<rparr>"

subsection \<open>Pitch estimation\<close>

text \<open>
  \<^verbatim>\<open>xs.slice(start, end)\<close>: a negative index counts from the end, and both indices are
  clamped to the array.
\<close>

definition js_slice :: "'a list \<Rightarrow> int \<Rightarrow> int \<Rightarrow> 'a list" where
  "js_slice xs start fin =
     (let n = int (length xs);
          s = (if start < 0 then max (n + start) 0 else min start n);
          e = (if fin < 0 then max (n + fin) 0 else min fin n)
      in take (nat (e - s)) (drop (nat s) xs))"

text \<open>
  The inner loop of \<^verbatim>\<open>extractF0\<close> for a lag that is not negative:
  \<^verbatim>\<open>for (let i = 0; i < segment.length - lag; i++) corr += segment[i] * segment[i + lag]\<close>.
\<close>

definition autocorrelation :: "real list \<Rightarrow> nat \<Rightarrow> real" where
  "autocorrelation segment lag =
     (\<Sum>i\<leftarrow>[0..<length segment - lag]. segment ! i * segment ! (i + lag))"

text \<open>
  The body of the outer loop on the pair of \<^verbatim>\<open>maxCorr\<close> and \<^verbatim>\<open>bestLag\<close>; \<open>None\<close> is
  \<^verbatim>\<open>-Infinity\<close>. For a negative lag the source reads \<^verbatim>\<open>segment[i + lag]\<close> out of range,
  \<^verbatim>\<open>corr\<close> is \<open>NaN\<close> and the comparison fails.
\<close>

definition f0_step :: "real list \<Rightarrow> int \<Rightarrow> real option \<times> int \<Rightarrow> real option \<times> int" where
  "f0_step segment lag st =
     (case st of (maxCorr, bestLag) \<Rightarrow>
        if lag < 0 then (maxCorr, bestLag)
        else
          (let corr = autocorrelation segment (nat lag)
           in if (case maxCorr of None \<Rightarrow> True | Some m \<Rightarrow> corr > m)
              then (Some corr, lag) else (maxCorr, bestLag)))"

text \<open>\<^verbatim>\<open>for (let lag = minLag; lag < Math.min(maxLag, segment.length / 2); lag++)\<close>, from \<open>lag\<close> on.\<close>

function f0_loop :: "real list \<Rightarrow> real \<Rightarrow> int \<Rightarrow> real option \<times> int \<Rightarrow> real option \<times> int" where
  "f0_loop segment bound lag st =
     (if of_int lag < bound then f0_loop segment bound (lag + 1) (f0_step segment lag st)
      else st)"
  by pat_completeness auto
termination
proof (relation "measure (\<lambda>(segment, bound, lag, st). nat (\<lceil>bound\<rceil> - lag))")
  show "wf (measure (\<lambda>(segment, bound, lag, st). nat (\<lceil>bound\<rceil> - lag)))" by simp
next
  fix segment :: "real list" and bound :: real and lag :: int and st :: "real option \<times> int"
  assume "of_int lag < bound"
  then have "lag < \<lceil>bound\<rceil>" by (simp add: less_ceiling_iff)
  then show "((segment, bound, lag + 1, f0_step segment lag st), (segment, bound, lag, st))
      \<in> measure (\<lambda>(segment, bound, lag, st). nat (\<lceil>bound\<rceil> - lag))"
    by simp
qed

declare f0_loop.simps [simp del]

text \<open>The slice of the buffer that \<^verbatim>\<open>extractF0\<close> analyses, and the bounds of its lag loop.\<close>

definition f0_segment :: "audio_buffer \<Rightarrow> real \<Rightarrow> real \<Rightarrow> real list" where
  "f0_segment buf startTime endTime =
     (let startSample = \<lfloor>startTime * sampleRate buf\<rfloor>;
          endSample = \<lfloor>endTime * sampleRate buf\<rfloor>
      in js_slice (channelData buf) startSample endSample)"

definition f0_minLag :: "audio_buffer \<Rightarrow> real \<Rightarrow> int" where
  "f0_minLag buf fMax = \<lfloor>sampleRate buf / fMax\<rfloor>"

definition f0_maxLag :: "audio_buffer \<Rightarrow> real \<Rightarrow> int" where
  "f0_maxLag buf fMin = \<lfloor>sampleRate buf / fMin\<rfloor>"

definition f0_bound :: "audio_buffer \<Rightarrow> real list \<Rightarrow> real \<Rightarrow> real" where
  "f0_bound buf segment fMin = min (of_int (f0_maxLag buf fMin)) (real (length segment) / 2)"

text \<open>\<^verbatim>\<open>extractF0\<close>; \<open>None\<close> is \<^verbatim>\<open>null\<close>.\<close>

definition extractF0 :: "audio_buffer \<Rightarrow> real \<Rightarrow> real \<Rightarrow> real \<Rightarrow> real \<Rightarrow> real option" where
  "extractF0 buf startTime endTime fMin fMax =
     (let segment = f0_segment buf startTime endTime
      in if length segment < 400 then None
         else
           (let bestLag = snd (f0_loop segment (f0_bound buf segment fMin) (f0_minLag buf fMax)
                                 (None, 0))
            in if bestLag > 0 then Some (sampleRate buf / of_int bestLag) else None))"

subsection \<open>Clustering\<close>

text \<open>
  \<^verbatim>\<open>findNearestCluster\<close>; \<open>None\<close> is the initial \<^verbatim>\<open>minDist = Infinity\<close>. The same loop
  is written out inside \<^verbatim>\<open>kMeansClustering\<close>.
\<close>

definition nearest_step :: "real \<Rightarrow> nat \<times> real \<Rightarrow> real option \<times> nat \<Rightarrow> real option \<times> nat" where
  "nearest_step val ic st =
     (case ic of (idx, centroid) \<Rightarrow> case st of (minDist, bestCluster) \<Rightarrow>
        (let dist = \<bar>val - centroid\<bar>
         in if (case minDist of None \<Rightarrow> True | Some m \<Rightarrow> dist < m)
            then (Some dist, idx) else (minDist, bestCluster)))"

definition findNearestCluster :: "real \<Rightarrow> real list \<Rightarrow> nat" where
  "findNearestCluster val centroids =
     snd (fold (nearest_step val) (enumerate 0 centroids) (None, 0))"

text \<open>One round: the values are assigned to clusters, then the centroids are recomputed.\<close>

definition kmeans_round :: "real list \<Rightarrow> real list \<Rightarrow> real list" where
  "kmeans_round vals centroids =
     (let clusters = map (\<lambda>idx. filter (\<lambda>val. findNearestCluster val centroids = idx) vals)
                       [0..<length centroids]
      in map (\<lambda>(idx, centroid).
                if length (clusters ! idx) > 0
                then sum_list (clusters ! idx) / real (length (clusters ! idx))
                else centroid)
           (enumerate 0 centroids))"

text \<open>
  \<^verbatim>\<open>kMeansClustering\<close>. \<^verbatim>\<open>Array(k)\<close> throws a RangeError for a negative \<open>k\<close>; for
  \<open>k = 0\<close> there is no cluster and \<^verbatim>\<open>clusters[0].push\<close> throws a TypeError on the first
  value.
\<close>

definition kMeansClustering :: "real list \<Rightarrow> int \<Rightarrow> js_error + real list" where
  "kMeansClustering vals k =
     (if int (length vals) < k then Inr (js_slice vals 0 k)
      else if k < 0 then Inl RangeError
      else if k = 0 then (if vals = [] then Inr [] else Inl TypeError)
      else
        (let sorted = sort vals;
             step = length sorted div nat k;
             centroids = map (\<lambda>i. sorted ! min (i * step) (length sorted - 1)) [0..<nat k]
         in Inr ((kmeans_round vals ^^ 10) centroids)))"

subsection \<open>Segmentation by silence, then clustering by pitch\<close>

definition f0_values :: "provisional_segment list \<Rightarrow> real list" where
  "f0_values segs = concat (map (\<lambda>s. case ps_f0 s of None \<Rightarrow> [] | Some f \<Rightarrow> [f]) segs)"

text \<open>
  \<^verbatim>\<open>segmentBySilenceAndF0\<close>: the values passed to \<^verbatim>\<open>onProgress\<close> and the returned
  segments, or the error that \<^verbatim>\<open>kMeansClustering\<close> throws.
\<close>

definition segmentBySilenceAndF0 ::
  "audio_buffer \<Rightarrow> seg_params \<Rightarrow> js_error + (real list \<times> provisional_segment list)" where
  "segmentBySilenceAndF0 buf params =
     (let silence = segmentBySilence buf params;
          progress1 = map (\<lambda>p. p * (1 / 2)) (fst silence);
          segs = snd silence;
          progress2 = map (\<lambda>i. 50 + Math_round ((real i / real (length segs)) * 50))
                        [0..<length segs];
          segs1 = map (\<lambda>s. s\<lparr>ps_f0 := extractF0 buf (ps_start s) (ps_end s)
                                        (f0Min params) (f0Max params)\<rparr>) segs;
          f0Values = f0_values segs1
      in if length f0Values > 0 then
           (case kMeansClustering f0Values (numSpeakers params) of
              Inl e \<Rightarrow> Inl e
            | Inr clusters \<Rightarrow>
                Inr (progress1 @ progress2,
                     map (\<lambda>s. case ps_f0 s of
                                 None \<Rightarrow> s
                               | Some f \<Rightarrow> s\<lparr>ps_speaker := Spk (findNearestCluster f clusters + 1)\<rparr>)
                       segs1))
         else Inr (progress1 @ progress2, segs1))"

definition segmentBySlidingWindow ::
  "audio_buffer \<Rightarrow> seg_params \<Rightarrow> js_error + (real list \<times> provisional_segment list)" where
  "segmentBySlidingWindow = segmentBySilenceAndF0"

subsection \<open>The orchestrator\<close>

datatype 'a outcome = Returns 'a | Throws js_error | Never_returns

text \<open>
  The \<^verbatim>\<open>switch\<close> of \<^verbatim>\<open>runAutoSegmentation\<close>. Every strategy starts by reading
  \<^verbatim>\<open>this.audioBuffer.getChannelData(0)\<close>, a TypeError when no audio is loaded; an
  unknown strategy leaves \<^verbatim>\<open>segments\<close> empty.
\<close>

definition run_strategy ::
  "app \<Rightarrow> string \<Rightarrow> seg_params \<Rightarrow> (real list \<times> provisional_segment list) outcome" where
  "run_strategy this strategy params =
     (if strategy = ''silence'' then
        (case audioBuffer this of
           None \<Rightarrow> Throws TypeError
         | Some buf \<Rightarrow> Returns (segmentBySilence buf params))
      else if strategy = ''silence_f0'' then
        (case audioBuffer this of
           None \<Rightarrow> Throws TypeError
         | Some buf \<Rightarrow>
             (case segmentBySilenceAndF0 buf params of Inl e \<Rightarrow> Throws e | Inr r \<Rightarrow> Returns r))
      else if strategy = ''vad_clustering'' then
        (case audioBuffer this of
           None \<Rightarrow> Throws TypeError
         | Some buf \<Rightarrow>
             (case segmentByVADClustering buf params of None \<Rightarrow> Never_returns | Some r \<Rightarrow> Returns r))
      else if strategy = ''sliding_window'' then
        (case audioBuffer this of
           None \<Rightarrow> Throws TypeError
         | Some buf \<Rightarrow>
             (case segmentBySlidingWindow buf params of Inl e \<Rightarrow> Throws e | Inr r \<Rightarrow> Returns r))
      else Returns ([], []))"

text \<open>
  \<^verbatim>\<open>createSegment\<close>, with the identifier it draws as an argument. After the segment is
  pushed the source reads \<^verbatim>\<open>segment.color.bg\<close>; \<^verbatim>\<open>runAutoSegmentation\<close> calls it with
  speaker numbers of at least 1 only, whose palette entry exists.
\<close>

definition createSegment :: "string \<Rightarrow> real \<Rightarrow> real \<Rightarrow> int \<Rightarrow> string \<Rightarrow> app \<Rightarrow> segment \<times> app" where
  "createSegment ident start fin spk transcription this =
     (let seg = \<lparr>seg_id = ident, seg_start = start, seg_end = fin, seg_speaker = spk,
                 seg_transcription = transcription, seg_color = speakerColor spk\<rparr>
      in (seg, this\<lparr>segments := segments this @ [seg]\<rparr>))"

text \<open>\<^verbatim>\<open>parseInt(seg.speaker.replace('spk', ''))\<close>.\<close>

fun speaker_number :: "speaker_tag \<Rightarrow> int" where
  "speaker_number (Spk n) = int n"

record run_result =
  rr_segments :: "provisional_segment list"
  rr_app :: app
  rr_progress :: "real list"
  rr_bar :: "real list"

text \<open>
  \<^verbatim>\<open>runAutoSegmentation\<close>. \<open>ids k\<close> is the identifier drawn for the \<open>k\<close>-th created
  segment; \<open>rr_progress\<close> lists the values given to the progress callback and \<open>rr_bar\<close>
  the percentages written to the width of the progress bar (the elements of the progress
  display are taken to exist): 0 before the strategy runs, the callback's values, 100
  after the segments are created.
\<close>

definition runAutoSegmentation ::
  "app \<Rightarrow> string \<Rightarrow> seg_params \<Rightarrow> (nat \<Rightarrow> string) \<Rightarrow> run_result outcome" where
  "runAutoSegmentation this strategy params ids =
     (case run_strategy this strategy params of
        Throws e \<Rightarrow> Throws e
      | Never_returns \<Rightarrow> Never_returns
      | Returns (progress, segs) \<Rightarrow>
          (let this1 = fold (\<lambda>(k, seg) t.
                               snd (createSegment (ids k) (ps_start seg) (ps_end seg)
                                      (speaker_number (ps_speaker seg)) [] t))
                         (enumerate 0 segs) this
           in Returns \<lparr>rr_segments = segs, rr_app = this1, rr_progress = progress,
                       rr_bar = [0] @ progress @ [100]\<rparr>))"

text \<open>
  \<^verbatim>\<open>autoSegment\<close>, with the strategy and the parameters it reads from the form as
  arguments: the state is captured first, and an error of the run is caught.
\<close>

datatype auto_toast = Segments_created nat | Segmentation_error

definition autoSegment ::
  "app \<Rightarrow> string \<Rightarrow> seg_params \<Rightarrow> nat \<Rightarrow> (nat \<Rightarrow> string) \<Rightarrow> (auto_toast \<times> app) option" where
  "autoSegment this strategy params now ids =
     (let this1 = saveState ''auto-segmentation'' now this
      in case runAutoSegmentation this1 strategy params ids of
           Returns r \<Rightarrow> Some (Segments_created (length (rr_segments r)), rr_app r)
         | Throws e \<Rightarrow> Some (Segmentation_error, this1)
         | Never_returns \<Rightarrow> None)"

text \<open>
  \<open>b\<close> is the first lag of \<open>lo, \<dots>, hi - 1\<close> at which the autocorrelation of the segment
  is largest.
\<close>

definition first_argmax :: "real list \<Rightarrow> int \<Rightarrow> int \<Rightarrow> int \<Rightarrow> bool" where
  "first_argmax segment lo hi b =
     (lo \<le> b \<and> b < hi \<and>
      (\<forall>l \<in> {lo..<hi}. autocorrelation segment (nat l) \<le> autocorrelation segment (nat b)) \<and>
      (\<forall>l \<in> {lo..<b}. autocorrelation segment (nat l) < autocorrelation segment (nat b)))"


text \<open>One second of a loud constant signal at 400 Hz, and a project that has loaded it.\<close>

definition loud_buffer :: audio_buffer where
  "loud_buffer = \<lparr>channelData = replicate 400 1, sampleRate = 400\<rparr>"

definition loud_app :: app where
  "loud_app = new_app\<lparr>audioBuffer := Some loud_buffer\<rparr>"

text \<open>Parameters with the pitch bounds the wrong way round.\<close>

definition inverted_params :: seg_params where
  "inverted_params = (silence_params (1 / 2) (1 / 2) 0)\<lparr>f0Min := 300, f0Max := 75\<rparr>"

text \<open>300000 samples of silence at 16 kHz, and a project that has loaded them.\<close>

definition long_silence :: audio_buffer where
  "long_silence = \<lparr>channelData = replicate 300000 0, sampleRate = 16000\<rparr>"

definition silent_app :: app where
  "silent_app = new_app\<lparr>audioBuffer := Some long_silence\<rparr>"

section \<open>Properties\<close>

subsection \<open>History manager\<close>

lemma undoStack_restoreState: "undoStack (snd (restoreState st this)) = undoStack this"
  by (simp add: restoreState_def closeEditor_def Let_def)

lemma redoStack_restoreState: "redoStack (snd (restoreState st this)) = redoStack this"
  by (simp add: restoreState_def closeEditor_def Let_def)

lemma saveState_stacks:
  "length (undoStack this) \<le> maxHistorySize \<Longrightarrow>
   length (undoStack (saveState a now this)) \<le> maxHistorySize \<and>
   redoStack (saveState a now this) = []"
  by (simp add: saveState_def Let_def)

lemma history_op_total:
  "length (undoStack this) + length (redoStack this) \<le> maxHistorySize \<Longrightarrow>
   length (undoStack (apply_history_op h this)) + length (redoStack (apply_history_op h this))
     \<le> maxHistorySize"
proof (cases h)
  case (Capture a now)
  assume "length (undoStack this) + length (redoStack this) \<le> maxHistorySize"
  then have "length (undoStack this) \<le> maxHistorySize" by simp
  from saveState_stacks [OF this] Capture show ?thesis by simp
next
  case (Undo now)
  assume "length (undoStack this) + length (redoStack this) \<le> maxHistorySize"
  with Undo show ?thesis
    by (cases "undoStack this" rule: rev_cases)
       (auto simp: undo_def Let_def undoStack_restoreState redoStack_restoreState)
next
  case (Redo now)
  assume "length (undoStack this) + length (redoStack this) \<le> maxHistorySize"
  with Redo show ?thesis
    by (cases "redoStack this" rule: rev_cases)
       (auto simp: redo_def Let_def undoStack_restoreState redoStack_restoreState)
qed

lemma run_history_total:
  "length (undoStack this) + length (redoStack this) \<le> maxHistorySize \<Longrightarrow>
   length (undoStack (run_history ops this)) + length (redoStack (run_history ops this))
     \<le> maxHistorySize"
  unfolding run_history_def
proof (induction ops arbitrary: this)
  case Nil
  then show ?case by simp
next
  case (Cons h ops)
  from Cons.IH [OF history_op_total [OF Cons.prems]] show ?case by simp
qed

lemma speakerNum_rename_track [simp]: "speakerNum (rename_track spk t) = speakerNum t"
  by (simp add: rename_track_def)

lemma restore_speaker_map:
  "distinct (map speakerNum ts) \<Longrightarrow> restore_speaker spk ts = map (rename_track spk) ts"
proof (induction ts)
  case Nil
  then show ?case by simp
next
  case (Cons t ts)
  show ?case
  proof (cases "speakerNum t = sp_id spk")
    case True
    with Cons.prems have "\<forall>u \<in> set ts. speakerNum u \<noteq> sp_id spk" by force
    then have tl_same: "map (rename_track spk) ts = ts"
      by (induction ts) (auto simp: rename_track_def)
    have "rename_track spk t = t\<lparr>track_name := sp_name spk\<rparr>"
      using True by (simp add: rename_track_def)
    with True tl_same show ?thesis by simp
  next
    case False
    with Cons show ?thesis by (simp add: rename_track_def)
  qed
qed

lemma fold_restore_speaker_map:
  "distinct (map speakerNum ts) \<Longrightarrow>
   fold restore_speaker sps ts = map (fold rename_track sps) ts"
proof (induction sps arbitrary: ts)
  case Nil
  then show ?case by simp
next
  case (Cons spk sps)
  have d: "distinct (map speakerNum (map (rename_track spk) ts))"
    using Cons.prems by (simp add: comp_def)
  show ?case
    using Cons.IH [OF d] Cons.prems by (simp add: restore_speaker_map comp_def)
qed

lemma fold_rename_track_other:
  "\<forall>spk \<in> set sps. sp_id spk \<noteq> speakerNum t \<Longrightarrow> fold rename_track sps t = t"
  by (induction sps arbitrary: t) (auto simp: rename_track_def)

lemma save_speaker_fold_rename:
  "distinct (map sp_id sps) \<Longrightarrow> spk \<in> set sps \<Longrightarrow> sp_id spk = speakerNum t \<Longrightarrow>
   save_speaker (fold rename_track sps t) = spk"
proof (induction sps arbitrary: t)
  case Nil
  then show ?case by simp
next
  case (Cons a sps)
  show ?case
  proof (cases "a = spk")
    case True
    with Cons.prems have "\<forall>s \<in> set sps. sp_id s \<noteq> speakerNum (rename_track a t)" by force
    from fold_rename_track_other [OF this]
    have f: "fold rename_track sps (rename_track a t) = rename_track a t" .
    have r: "rename_track a t = t\<lparr>track_name := sp_name spk\<rparr>"
      using True Cons.prems(3) by (simp add: rename_track_def)
    show ?thesis using Cons.prems(3) by (simp add: f [unfolded r] r save_speaker_def)
  next
    case False
    with Cons.prems have in_tl: "spk \<in> set sps" and d: "distinct (map sp_id sps)" by auto
    have "sp_id spk = speakerNum (rename_track a t)" using Cons.prems(3) by simp
    from Cons.IH [OF d in_tl this] show ?thesis by simp
  qed
qed

lemma restore_names:
  assumes d: "distinct (map speakerNum ts)" and ids: "map speakerNum ts = map sp_id sps"
  shows "map save_speaker (fold restore_speaker sps ts) = sps"
proof -
  have len: "length ts = length sps" using ids by (metis length_map)
  have dsp: "distinct (map sp_id sps)" using d ids by simp
  have "map save_speaker (map (fold rename_track sps) ts) = sps"
  proof (rule nth_equalityI)
    show "length (map save_speaker (map (fold rename_track sps) ts)) = length sps"
      using len by simp
  next
    fix i assume "i < length (map save_speaker (map (fold rename_track sps) ts))"
    then have i: "i < length sps" "i < length ts" using len by simp_all
    have "sp_id (sps ! i) = speakerNum (ts ! i)"
      using ids i by (metis nth_map)
    from save_speaker_fold_rename [OF dsp _ this] i
    show "map save_speaker (map (fold rename_track sps) ts) ! i = sps ! i" by simp
  qed
  with fold_restore_speaker_map [OF d] show ?thesis by simp
qed

lemma save_speaker_inj: "save_speaker t = save_speaker u \<Longrightarrow> t = u"
  by (cases t, cases u) (simp add: save_speaker_def)

lemma restore_tracks:
  assumes "distinct (map speakerNum ts)" and "map speakerNum ts = map speakerNum ts0"
  shows "fold restore_speaker (map save_speaker ts0) ts = ts0"
proof -
  have "map speakerNum ts = map sp_id (map save_speaker ts0)"
    using assms(2) by (simp add: save_speaker_def comp_def)
  from restore_names [OF assms(1) this]
  have "map save_speaker (fold restore_speaker (map save_speaker ts0) ts) = map save_speaker ts0" .
  moreover have "inj save_speaker" by (rule injI) (rule save_speaker_inj)
  ultimately show ?thesis by (simp only: inj_map_eq_map)
qed

lemma restore_save_segment:
  "restore_segment (save_segment s) = s\<lparr>seg_color := speakerColor (seg_speaker s)\<rparr>"
  by (simp add: save_segment_def restore_segment_def)

lemma segments_restoreState:
  "segments (snd (restoreState (currentState a now this0) this)) =
     map (\<lambda>s. s\<lparr>seg_color := speakerColor (seg_speaker s)\<rparr>) (segments this0)"
  by (simp add: restoreState_def closeEditor_def Let_def currentState_def comp_def
      restore_save_segment)

lemma speakerTracks_restoreState:
  assumes "distinct (map speakerNum (speakerTracks this))"
    and "map speakerNum (speakerTracks this) = map speakerNum (speakerTracks this0)"
  shows "speakerTracks (snd (restoreState (currentState a now this0) this)) = speakerTracks this0"
  using restore_tracks [OF assms]
  by (simp add: restoreState_def closeEditor_def Let_def currentState_def)

lemma fst_restoreState:
  "fst (restoreState (currentState a now this0) this) =
     (if list_all (\<lambda>s. speakerColor (seg_speaker s) \<noteq> None) (segments this0)
      then Inr () else Inl TypeError)"
  by (simp add: restoreState_def closeEditor_def Let_def currentState_def redrawAllSegments_def
      list.pred_map comp_def restore_segment_def save_segment_def)

text \<open>
  Claim C5. Starting from empty undo and redo stacks, after any sequence of captures
  (\<^verbatim>\<open>saveState\<close>), undos and redos the undo stack holds at most \<open>maxHistorySize\<close>
  (50) entries. A capture always leaves the redo stack empty. A capture made when the
  undo stack is full drops the entry at the bottom of the stack (the oldest) and puts
  the new snapshot on top; below capacity it only puts the new snapshot on top.
\<close>

theorem history_bounded:
  assumes "undoStack this0 = []" and "redoStack this0 = []"
  shows "maxHistorySize = 50 \<and>
     length (undoStack (run_history ops this0)) \<le> maxHistorySize \<and>
     redoStack (saveState a now (run_history ops this0)) = [] \<and>
     (length (undoStack (run_history ops this0)) = maxHistorySize \<longrightarrow>
        undoStack (saveState a now (run_history ops this0)) =
          tl (undoStack (run_history ops this0)) @ [currentState a now (run_history ops this0)]) \<and>
     (length (undoStack (run_history ops this0)) < maxHistorySize \<longrightarrow>
        undoStack (saveState a now (run_history ops this0)) =
          undoStack (run_history ops this0) @ [currentState a now (run_history ops this0)])"
proof -
  have "length (undoStack this0) + length (redoStack this0) \<le> maxHistorySize"
    using assms by simp
  from run_history_total [OF this, of ops]
  have le: "length (undoStack (run_history ops this0)) \<le> maxHistorySize" by simp
  have ne: "undoStack (run_history ops this0) \<noteq> []"
    if "length (undoStack (run_history ops this0)) = maxHistorySize"
    using that by (auto simp: maxHistorySize_def)
  show ?thesis
    using le ne by (auto simp: saveState_def Let_def maxHistorySize_def)
qed

theorem history_bounded_witness:
  "undoStack new_app = [] \<and> redoStack new_app = [] \<and>
   length (undoStack (run_history (replicate 50 (Capture ''edit'' 0)) new_app)) = maxHistorySize \<and>
   undoStack (saveState ''last'' 1 (run_history (replicate 50 (Capture ''edit'' 0)) new_app)) =
     replicate 49 (currentState ''edit'' 0 new_app) @ [currentState ''last'' 1 new_app] \<and>
   length (undoStack (run_history [Capture ''edit'' 0, Undo 1] new_app)) < maxHistorySize \<and>
   undoStack (saveState ''last'' 2 (run_history [Capture ''edit'' 0, Undo 1] new_app)) =
     [currentState ''last'' 2 new_app]"
  using history_bounded [of new_app "replicate 50 (Capture ''edit'' 0)" "''last''" 1]
    history_bounded [of new_app "[Capture ''edit'' 0, Undo 1]" "''last''" 2]
  by code_simp


lemma saveState_top:
  "undoStack (saveState a now this) \<noteq> [] \<and>
   last (undoStack (saveState a now this)) = currentState a now this \<and>
   redoStack (saveState a now this) = []"
proof -
  have "last (tl (xs @ [x])) = x \<and> tl (xs @ [x]) \<noteq> []" if "length (xs @ [x]) > maxHistorySize"
    for xs :: "saved_state list" and x
    using that by (cases xs) (auto simp: maxHistorySize_def)
  then show ?thesis by (auto simp: saveState_def Let_def)
qed

lemma undo_nonempty:
  assumes "undoStack this \<noteq> []"
  shows "undo now this =
     (case fst (restoreState (last (undoStack this))
                  (this\<lparr>redoStack := redoStack this @ [currentState ''before_undo'' now this],
                        undoStack := butlast (undoStack this)\<rparr>)) of
        Inl e \<Rightarrow> Inl e
      | Inr _ \<Rightarrow> Inr (Undo_of (sv_action (last (undoStack this)))),
      snd (restoreState (last (undoStack this))
             (this\<lparr>redoStack := redoStack this @ [currentState ''before_undo'' now this],
                   undoStack := butlast (undoStack this)\<rparr>)))"
  using assms by (simp add: undo_def Let_def split: sum.splits)

lemma redo_nonempty:
  assumes "redoStack this \<noteq> []"
  shows "redo now this =
     (case fst (restoreState (last (redoStack this))
                  (this\<lparr>undoStack := undoStack this @ [currentState ''before_redo'' now this],
                        redoStack := butlast (redoStack this)\<rparr>)) of
        Inl e \<Rightarrow> Inl e
      | Inr _ \<Rightarrow> Inr Redo_applied,
      snd (restoreState (last (redoStack this))
             (this\<lparr>undoStack := undoStack this @ [currentState ''before_redo'' now this],
                   redoStack := butlast (redoStack this)\<rparr>)))"
  using assms by (simp add: redo_def Let_def)

text \<open>
  Claim C6, as the code has it. Let \<open>thisB\<close> be the state in which \<^verbatim>\<open>saveState("B")\<close> is
  called (any state, so also any state reached after \<^verbatim>\<open>saveState("A")\<close>), and \<open>thisU\<close> the
  state in which \<^verbatim>\<open>undo()\<close> is then called: its stacks are those the capture of B left,
  its segments and speaker names may have been edited since. \<^verbatim>\<open>restoreState\<close> renames
  tracks by their number and neither adds nor removes one, and it throws when a restored
  segment has no colour. So suppose that the speaker tracks of \<open>thisU\<close> carry the numbers
  of those of \<open>thisB\<close>, that these numbers are pairwise different, and that the speaker of
  every segment of \<open>thisB\<close> has an entry in the palette. Then \<^verbatim>\<open>undo\<close> returns and
  announces the undo of B, the speaker tracks are those of \<open>thisB\<close>, and the segments are
  those of \<open>thisB\<close>, each with the colour of its speaker (so they are the segments of
  \<open>thisB\<close> when these had the colour of their speaker). A following \<^verbatim>\<open>redo()\<close> brings
  back in the same way the segments and the speaker tracks of \<open>thisU\<close>, when the speaker
  of every segment of \<open>thisU\<close> has an entry in the palette. On an empty undo stack
  \<^verbatim>\<open>undo()\<close> changes nothing and only shows the toast "Nothing to undo".
\<close>

theorem undo_redo_restore:
  assumes tracks: "distinct (map speakerNum (speakerTracks thisB))"
    and same: "map speakerNum (speakerTracks thisU) = map speakerNum (speakerTracks thisB)"
    and colours: "\<forall>s \<in> set (segments thisB). speakerColor (seg_speaker s) \<noteq> None"
    and undoB: "undoStack thisU = undoStack (saveState ''B'' nowB thisB)"
    and redoB: "redoStack thisU = redoStack (saveState ''B'' nowB thisB)"
  shows "fst (undo nowU thisU) = Inr (Undo_of ''B'') \<and>
     speakerTracks (snd (undo nowU thisU)) = speakerTracks thisB \<and>
     segments (snd (undo nowU thisU)) =
       map (\<lambda>s. s\<lparr>seg_color := speakerColor (seg_speaker s)\<rparr>) (segments thisB) \<and>
     ((\<forall>s \<in> set (segments thisB). seg_color s = speakerColor (seg_speaker s)) \<longrightarrow>
        segments (snd (undo nowU thisU)) = segments thisB) \<and>
     ((\<forall>s \<in> set (segments thisU). speakerColor (seg_speaker s) \<noteq> None) \<longrightarrow>
        fst (redo nowR (snd (undo nowU thisU))) = Inr Redo_applied \<and>
        speakerTracks (snd (redo nowR (snd (undo nowU thisU)))) = speakerTracks thisU \<and>
        segments (snd (redo nowR (snd (undo nowU thisU)))) =
          map (\<lambda>s. s\<lparr>seg_color := speakerColor (seg_speaker s)\<rparr>) (segments thisU)) \<and>
     (undoStack this = [] \<longrightarrow> undo now this = (Inr Nothing_to_undo, this))"
proof -
  let ?snapB = "currentState ''B'' nowB thisB"
  let ?snapU = "currentState ''before_undo'' nowU thisU"
  let ?this2 = "thisU\<lparr>redoStack := redoStack thisU @ [?snapU],
                       undoStack := butlast (undoStack thisU)\<rparr>"
  let ?this3 = "snd (restoreState ?snapB ?this2)"
  from saveState_top [of "''B''" nowB thisB] undoB redoB
  have ne: "undoStack thisU \<noteq> []" and top: "last (undoStack thisU) = ?snapB"
    and noredo: "redoStack thisU = []" by simp_all
  have drawnB: "fst (restoreState ?snapB ?this2) = Inr ()"
    using colours by (simp add: fst_restoreState list_all_iff)
  have u: "undo nowU thisU = (Inr (Undo_of ''B''), ?this3)"
    by (simp only: undo_nonempty [OF ne] top drawnB) (simp add: currentState_def)
  have d2: "distinct (map speakerNum (speakerTracks ?this2))"
    and n2: "map speakerNum (speakerTracks ?this2) = map speakerNum (speakerTracks thisB)"
    using same tracks by simp_all
  have tracks3: "speakerTracks ?this3 = speakerTracks thisB"
    by (rule speakerTracks_restoreState [OF d2 n2])
  have segs3: "segments ?this3 =
      map (\<lambda>s. s\<lparr>seg_color := speakerColor (seg_speaker s)\<rparr>) (segments thisB)"
    by (rule segments_restoreState)
  have same_segs: "segments ?this3 = segments thisB"
    if "\<forall>s \<in> set (segments thisB). seg_color s = speakerColor (seg_speaker s)"
    unfolding segs3 using that by (intro map_idI) simp
  have redo3: "redoStack ?this3 = [?snapU]"
    using noredo by (simp add: redoStack_restoreState)
  then have ne3: "redoStack ?this3 \<noteq> []" and top3: "last (redoStack ?this3) = ?snapU"
    by simp_all
  let ?this4 = "?this3\<lparr>undoStack := undoStack ?this3 @ [currentState ''before_redo'' nowR ?this3],
                         redoStack := butlast (redoStack ?this3)\<rparr>"
  have d4: "distinct (map speakerNum (speakerTracks ?this4))"
    and n4: "map speakerNum (speakerTracks ?this4) = map speakerNum (speakerTracks thisU)"
    using same tracks tracks3 by simp_all
  have r_snd: "snd (redo nowR ?this3) = snd (restoreState ?snapU ?this4)"
    by (simp only: redo_nonempty [OF ne3] top3 snd_conv)
  have r_fst: "fst (redo nowR ?this3) = Inr Redo_applied"
    if "\<forall>s \<in> set (segments thisU). speakerColor (seg_speaker s) \<noteq> None"
  proof -
    have "fst (restoreState ?snapU ?this4) = Inr ()"
      using that by (simp add: fst_restoreState list_all_iff)
    then show ?thesis
      by (simp only: redo_nonempty [OF ne3] top3 fst_conv) simp
  qed
  have tracks5: "speakerTracks (snd (redo nowR ?this3)) = speakerTracks thisU"
    unfolding r_snd by (rule speakerTracks_restoreState [OF d4 n4])
  have segs5: "segments (snd (redo nowR ?this3)) =
      map (\<lambda>s. s\<lparr>seg_color := speakerColor (seg_speaker s)\<rparr>) (segments thisU)"
    unfolding r_snd by (rule segments_restoreState)
  have empty: "undoStack this = [] \<longrightarrow> undo now this = (Inr Nothing_to_undo, this)"
    by (simp add: undo_def)
  show ?thesis
    unfolding u fst_conv snd_conv
    using tracks3 segs3 same_segs r_fst tracks5 segs5 empty by blast
qed

theorem undo_redo_restore_witness:
  "distinct (map speakerNum (speakerTracks demo_app)) \<and>
   list_all (\<lambda>s. speakerColor (seg_speaker s) \<noteq> None) (segments demo_app) \<and>
   fst (undo 3 (edited_after_captures demo_app []
          [\<lparr>speakerNum = 1, track_name = ''Ann''\<rparr>, \<lparr>speakerNum = 2, track_name = ''Bob''\<rparr>]))
     = Inr (Undo_of ''B'') \<and>
   speakerTracks (snd (undo 3 (edited_after_captures demo_app []
          [\<lparr>speakerNum = 1, track_name = ''Ann''\<rparr>, \<lparr>speakerNum = 2, track_name = ''Bob''\<rparr>])))
     = speakerTracks demo_app \<and>
   segments (snd (undo 3 (edited_after_captures demo_app []
          [\<lparr>speakerNum = 1, track_name = ''Ann''\<rparr>, \<lparr>speakerNum = 2, track_name = ''Bob''\<rparr>])))
     = segments demo_app \<and>
   fst (redo 4 (snd (undo 3 (edited_after_captures demo_app []
          [\<lparr>speakerNum = 1, track_name = ''Ann''\<rparr>, \<lparr>speakerNum = 2, track_name = ''Bob''\<rparr>]))))
     = Inr Redo_applied \<and>
   speakerTracks (snd (redo 4 (snd (undo 3 (edited_after_captures demo_app []
          [\<lparr>speakerNum = 1, track_name = ''Ann''\<rparr>, \<lparr>speakerNum = 2, track_name = ''Bob''\<rparr>])))))
     = [\<lparr>speakerNum = 1, track_name = ''Ann''\<rparr>, \<lparr>speakerNum = 2, track_name = ''Bob''\<rparr>] \<and>
   segments (snd (redo 4 (snd (undo 3 (edited_after_captures demo_app []
          [\<lparr>speakerNum = 1, track_name = ''Ann''\<rparr>, \<lparr>speakerNum = 2, track_name = ''Bob''\<rparr>])))))
     = [] \<and>
   undoStack new_app = [] \<and> undo 0 new_app = (Inr Nothing_to_undo, new_app)"
proof -
  let ?thisB = "saveState ''A'' 1 demo_app"
  let ?thisU = "edited_after_captures demo_app []
      [\<lparr>speakerNum = 1, track_name = ''Ann''\<rparr>, \<lparr>speakerNum = 2, track_name = ''Bob''\<rparr>]"
  have live: "speakerTracks ?thisB = speakerTracks demo_app" "segments ?thisB = segments demo_app"
    by (simp_all add: saveState_def Let_def)
  have h: "distinct (map speakerNum (speakerTracks ?thisB))"
    "map speakerNum (speakerTracks ?thisU) = map speakerNum (speakerTracks ?thisB)"
    "\<forall>s \<in> set (segments ?thisB). speakerColor (seg_speaker s) \<noteq> None"
    "undoStack ?thisU = undoStack (saveState ''B'' 2 ?thisB)"
    "redoStack ?thisU = redoStack (saveState ''B'' 2 ?thisB)"
    by (simp_all add: edited_after_captures_def saveState_def Let_def demo_app_def new_app_def
        speakerColor_def js_rem_def speakerColors_length_def)
  have exact: "\<forall>s \<in> set (segments ?thisB). seg_color s = speakerColor (seg_speaker s)"
    by (simp add: saveState_def Let_def demo_app_def new_app_def
        speakerColor_def js_rem_def speakerColors_length_def)
  have edited: "segments ?thisU = []"
    "speakerTracks ?thisU =
       [\<lparr>speakerNum = 1, track_name = ''Ann''\<rparr>, \<lparr>speakerNum = 2, track_name = ''Bob''\<rparr>]"
    by (simp_all add: edited_after_captures_def)
  have colU: "\<forall>s \<in> set (segments ?thisU). speakerColor (seg_speaker s) \<noteq> None"
    by (simp add: edited)
  have exact': "\<forall>s \<in> set (segments demo_app). seg_color s = speakerColor (seg_speaker s)"
    using exact unfolding live .
  have emp: "undoStack new_app = []" by (simp add: new_app_def)
  note t = undo_redo_restore [OF h, of 3 4 new_app 0, unfolded live]
  from t exact' colU emp
  have c1: "fst (undo 3 ?thisU) = Inr (Undo_of ''B'')"
    and c2: "speakerTracks (snd (undo 3 ?thisU)) = speakerTracks demo_app"
    and c3: "segments (snd (undo 3 ?thisU)) = segments demo_app"
    and c4: "fst (redo 4 (snd (undo 3 ?thisU))) = Inr Redo_applied"
    and c5: "speakerTracks (snd (redo 4 (snd (undo 3 ?thisU)))) = speakerTracks ?thisU"
    and c6: "segments (snd (redo 4 (snd (undo 3 ?thisU)))) =
        map (\<lambda>s. s\<lparr>seg_color := speakerColor (seg_speaker s)\<rparr>) (segments ?thisU)"
    and c7: "undo 0 new_app = (Inr Nothing_to_undo, new_app)"
    by blast+
  have c5': "speakerTracks (snd (redo 4 (snd (undo 3 ?thisU)))) =
      [\<lparr>speakerNum = 1, track_name = ''Ann''\<rparr>, \<lparr>speakerNum = 2, track_name = ''Bob''\<rparr>]"
    using c5 by (simp only: edited)
  have c6': "segments (snd (redo 4 (snd (undo 3 ?thisU)))) = []"
    using c6 by (simp only: edited list.map)
  have d1: "distinct (map speakerNum (speakerTracks demo_app))"
    using h(1) unfolding live .
  have d2: "list_all (\<lambda>s. speakerColor (seg_speaker s) \<noteq> None) (segments demo_app)"
    using h(3) unfolding live by (simp only: list_all_iff)
  from d1 d2 c1 c2 c3 c4 c5' c6' emp c7 show ?thesis by blast
qed

text \<open>
  The claim as stated fails in three ways. With two speaker tracks of the same number,
  capture, capture and undo rename the first track twice and the second never. A speaker
  track added after the capture of B is still there after the undo. And when a captured
  segment has a speaker without a palette entry, \<^verbatim>\<open>undo()\<close> throws a TypeError instead
  of returning.
\<close>

theorem undo_does_not_restore_every_state:
  "map track_name (speakerTracks twin_app) = [''a'', ''b''] \<and>
   fst (undo 3 (saveState ''B'' 2 (saveState ''A'' 1 twin_app))) = Inr (Undo_of ''B'') \<and>
   map track_name (speakerTracks (snd (undo 3 (saveState ''B'' 2 (saveState ''A'' 1 twin_app)))))
     = [''b'', ''b''] \<and>
   length (speakerTracks demo_app) = 2 \<and>
   fst (undo 3 (edited_after_captures demo_app (segments demo_app)
          (speakerTracks demo_app @ [\<lparr>speakerNum = 3, track_name = ''Speaker 3''\<rparr>])))
     = Inr (Undo_of ''B'') \<and>
   length (speakerTracks (snd (undo 3 (edited_after_captures demo_app (segments demo_app)
          (speakerTracks demo_app @ [\<lparr>speakerNum = 3, track_name = ''Speaker 3''\<rparr>])))))
     = 3 \<and>
   fst (undo 3 (saveState ''B'' 2 (saveState ''A'' 1 speaker0_app))) = Inl TypeError"
  by (simp add: undo_def restoreState_def redrawAllSegments_def closeEditor_def saveState_def
      currentState_def edited_after_captures_def twin_app_def demo_app_def speaker0_app_def
      new_app_def save_speaker_def save_segment_def restore_segment_def speakerColor_def
      js_rem_def speakerColors_length_def maxHistorySize_def Let_def)

subsection \<open>Segmentation by silence\<close>

lemma silence_step_segments:
  assumes "\<forall>s \<in> set (sc_segments st). minDuration \<le> ps_end s - ps_start s"
  shows "\<forall>s \<in> set (sc_segments (silence_step stride n rate threshold minDuration pauseTol i x st)).
           minDuration \<le> ps_end s - ps_start s"
  using assms by (auto simp: silence_step_def Let_def)

lemma silence_loop_segments:
  assumes "\<forall>s \<in> set (sc_segments st). minDuration \<le> ps_end s - ps_start s"
  shows "\<forall>s \<in> set (sc_segments (silence_loop stride n rate threshold minDuration pauseTol i xs st)).
           minDuration \<le> ps_end s - ps_start s"
  using assms
proof (induction xs arbitrary: i st)
  case Nil
  then show ?case by simp
next
  case (Cons x xs)
  from Cons.IH [OF silence_step_segments [OF Cons.prems]] show ?case by simp
qed

lemma segmentBySilence_every_duration:
  "\<forall>s \<in> set (snd (segmentBySilence_every stride buf params)).
     minSegmentDuration params \<le> ps_end s - ps_start s"
proof -
  have "\<forall>s \<in> set (sc_segments silence_init). minSegmentDuration params \<le> ps_end s - ps_start s"
    by (simp add: silence_init_def)
  from silence_loop_segments [OF this]
  show ?thesis by (auto simp: segmentBySilence_every_def Let_def)
qed

lemma silence_step_quiet:
  "\<bar>x\<bar> \<le> threshold \<Longrightarrow> \<not> inSpeech st \<Longrightarrow>
   \<not> inSpeech (silence_step stride n rate threshold minDuration pauseTol i x st) \<and>
   sc_segments (silence_step stride n rate threshold minDuration pauseTol i x st) = sc_segments st"
  by (simp add: silence_step_def Let_def)

lemma silence_loop_quiet:
  "\<forall>x \<in> set xs. \<bar>x\<bar> \<le> threshold \<Longrightarrow> \<not> inSpeech st \<Longrightarrow>
   \<not> inSpeech (silence_loop stride n rate threshold minDuration pauseTol i xs st) \<and>
   sc_segments (silence_loop stride n rate threshold minDuration pauseTol i xs st) = sc_segments st"
proof (induction xs arbitrary: i st)
  case Nil
  then show ?case by simp
next
  case (Cons x xs)
  from Cons.prems have x: "\<bar>x\<bar> \<le> threshold" and xs: "\<forall>x \<in> set xs. \<bar>x\<bar> \<le> threshold"
    by simp_all
  from silence_step_quiet [OF x Cons.prems(2)] Cons.IH [OF xs] show ?case by simp
qed

lemma segmentBySilence_every_quiet:
  assumes "\<forall>x \<in> set (channelData buf). \<bar>x\<bar> \<le> silenceThreshold params"
  shows "snd (segmentBySilence_every stride buf params) = []"
proof -
  have "\<not> inSpeech silence_init" by (simp add: silence_init_def)
  from silence_loop_quiet [OF assms this]
  show ?thesis by (simp add: segmentBySilence_every_def Let_def silence_init_def)
qed

text \<open>
  Claim C1, as the code has it. On a buffer with a positive sample rate, every segment
  that \<^verbatim>\<open>segmentBySilence\<close> returns lasts at least \<open>minSegmentDuration\<close>, and, when
  \<open>minSegmentDuration\<close> is positive, ends after it starts. The amplitude test is strict:
  a buffer with no sample above the threshold in absolute value gives no segment. The
  duration test is inclusive: a segment that lasts exactly \<open>minSegmentDuration\<close> is
  returned (two loud samples at 1 Hz with a minimum of 2 s).
\<close>

theorem segmentBySilence_durations:
  assumes "0 < sampleRate buf"
  shows "(\<forall>s \<in> set (snd (segmentBySilence buf params)).
            minSegmentDuration params \<le> ps_end s - ps_start s \<and>
            (0 < minSegmentDuration params \<longrightarrow> ps_start s < ps_end s)) \<and>
         ((\<forall>x \<in> set (channelData buf). \<bar>x\<bar> \<le> silenceThreshold params) \<longrightarrow>
            snd (segmentBySilence buf params) = []) \<and>
         snd (segmentBySilence \<lparr>channelData = [1, 1], sampleRate = 1\<rparr> (silence_params (1 / 2) 2 0))
           = [\<lparr>ps_start = 0, ps_end = 2, ps_speaker = Spk 1, ps_f0 = None\<rparr>]"
proof -
  have a: "\<forall>s \<in> set (snd (segmentBySilence buf params)).
            minSegmentDuration params \<le> ps_end s - ps_start s \<and>
            (0 < minSegmentDuration params \<longrightarrow> ps_start s < ps_end s)"
    using segmentBySilence_every_duration [of 100000 buf params]
    by (fastforce simp: segmentBySilence_def)
  have b: "(\<forall>x \<in> set (channelData buf). \<bar>x\<bar> \<le> silenceThreshold params) \<longrightarrow>
            snd (segmentBySilence buf params) = []"
    using segmentBySilence_every_quiet [of buf params 100000]
    by (simp add: segmentBySilence_def)
  have c: "snd (segmentBySilence \<lparr>channelData = [1, 1], sampleRate = 1\<rparr> (silence_params (1 / 2) 2 0))
           = [\<lparr>ps_start = 0, ps_end = 2, ps_speaker = Spk 1, ps_f0 = None\<rparr>]"
    by (simp add: segmentBySilence_def segmentBySilence_every_def silence_params_def
        silence_step_def silence_init_def at_stride_def Math_round_def Let_def)
  from a b c show ?thesis by blast
qed

theorem segmentBySilence_durations_witness:
  "0 < sampleRate \<lparr>channelData = [0, 1, 1, 1, 0, 0, 0, 1, 1], sampleRate = 2\<rparr> \<and>
   snd (segmentBySilence \<lparr>channelData = [0, 1, 1, 1, 0, 0, 0, 1, 1], sampleRate = 2\<rparr>
          (silence_params (1 / 2) 1 500))
     = [\<lparr>ps_start = 1 / 2, ps_end = 3 / 2, ps_speaker = Spk 1, ps_f0 = None\<rparr>,
        \<lparr>ps_start = 7 / 2, ps_end = 9 / 2, ps_speaker = Spk 1, ps_f0 = None\<rparr>] \<and>
   list_all (\<lambda>s. minSegmentDuration (silence_params (1 / 2) 1 500) \<le> ps_end s - ps_start s \<and>
                 ps_start s < ps_end s)
     (snd (segmentBySilence \<lparr>channelData = [0, 1, 1, 1, 0, 0, 0, 1, 1], sampleRate = 2\<rparr>
          (silence_params (1 / 2) 1 500))) \<and>
   list_all (\<lambda>x. \<bar>x\<bar> \<le> silenceThreshold (silence_params (1 / 2) 0 0)) [1 / 2, - 1 / 2] \<and>
   snd (segmentBySilence \<lparr>channelData = [1 / 2, - 1 / 2], sampleRate = 1\<rparr>
          (silence_params (1 / 2) 0 0)) = []"
  using segmentBySilence_durations
      [of "\<lparr>channelData = [0, 1, 1, 1, 0, 0, 0, 1, 1], sampleRate = 2\<rparr>" "silence_params (1 / 2) 1 500"]
    segmentBySilence_durations
      [of "\<lparr>channelData = [1 / 2, - 1 / 2], sampleRate = 1\<rparr>" "silence_params (1 / 2) 0 0"]
  by (simp add: segmentBySilence_def segmentBySilence_every_def silence_params_def
      silence_step_def silence_init_def at_stride_def Math_round_def Let_def)

theorem segmentBySilence_zero_length_segment:
  "\<exists>s \<in> set (snd (segmentBySilence \<lparr>channelData = [1, 0, 0], sampleRate = 1\<rparr>
                     (silence_params (1 / 2) 0 0))).
     ps_end s \<le> ps_start s"
  by (simp add: segmentBySilence_def segmentBySilence_every_def silence_params_def
      silence_step_def silence_init_def at_stride_def Math_round_def Let_def)

lemma scan_core_step:
  "scan_core st = scan_core st' \<Longrightarrow>
   scan_core (silence_step stride n rate threshold minDuration pauseTol i x st) =
   scan_core (silence_step stride' n rate threshold minDuration pauseTol i x st')"
  by (simp add: scan_core_def silence_step_def Let_def)

lemma scan_core_loop:
  "scan_core st = scan_core st' \<Longrightarrow>
   scan_core (silence_loop stride n rate threshold minDuration pauseTol i xs st) =
   scan_core (silence_loop stride' n rate threshold minDuration pauseTol i xs st')"
proof (induction xs arbitrary: i st st')
  case Nil
  then show ?case by simp
next
  case (Cons x xs)
  from Cons.IH [OF scan_core_step [OF Cons.prems]] show ?case by simp
qed

text \<open>
  Claim C2. The model is a function of the buffer and the parameters, so two runs on the
  same input return the same list. The segments do not depend on how often the scan
  yields either: for every stride, the scan that reports progress and yields every
  \<open>stride\<close> samples returns the segments of the scan of the source, which does so every
  100000 samples.
\<close>

theorem segmentBySilence_yield_independent:
  "snd (segmentBySilence_every stride buf params) = snd (segmentBySilence buf params)"
proof -
  let ?run = "\<lambda>k. silence_loop k (length (channelData buf)) (sampleRate buf)
      (silenceThreshold params) (minSegmentDuration params) (pauseTolerance params / 1000)
      0 (channelData buf) silence_init"
  have "scan_core (?run stride) = scan_core (?run 100000)"
    by (rule scan_core_loop) simp
  then have "sc_segments (?run stride) = sc_segments (?run 100000)"
    and "inSpeech (?run stride) = inSpeech (?run 100000)"
    and "segmentStart (?run stride) = segmentStart (?run 100000)"
    by (simp_all add: scan_core_def)
  then show ?thesis
    by (simp add: segmentBySilence_def segmentBySilence_every_def Let_def)
qed

subsection \<open>Segmentation by voice activity\<close>

lemma fold_vad_group_step:
  shows "fst (fold vad_group_step fs (segs, None)) =
           segs @ map run_segment (filter (\<lambda>r. 10 < length r) (closed_runs isVoiced fs))"
    and "or_features c \<noteq> [] \<Longrightarrow> or_start c = ft_time (hd (or_features c)) \<Longrightarrow>
         fst (fold vad_group_step fs (segs, Some c)) =
           segs @
           (if dropWhile isVoiced fs = [] then []
            else (if 10 < length (or_features c @ takeWhile isVoiced fs)
                  then [run_segment (or_features c @ takeWhile isVoiced fs)] else []) @
                 map run_segment
                   (filter (\<lambda>r. 10 < length r) (closed_runs isVoiced (dropWhile isVoiced fs))))"
proof (induction fs arbitrary: segs c)
  case Nil
  {
    case 1
    show ?case by simp
  next
    case 2
    show ?case by simp
  }
next
  case (Cons f fs)
  {
    case 1
    show ?case
    proof (cases "isVoiced f")
      case True
      let ?c = "\<lparr>or_start = ft_time f, or_features = [f]\<rparr>"
      have step: "vad_group_step f (segs, None) = (segs, Some ?c)"
        using True by (simp add: vad_group_step_def)
      have "or_features ?c \<noteq> []" and "or_start ?c = ft_time (hd (or_features ?c))"
        by simp_all
      from Cons.IH(2) [OF this, of segs] step True show ?thesis
        by (simp add: run_segment_def)
    next
      case False
      then have "vad_group_step f (segs, None) = (segs, None)"
        by (simp add: vad_group_step_def)
      with Cons.IH(1) [of segs] False show ?thesis by simp
    qed
  next
    case 2
    show ?case
    proof (cases "isVoiced f")
      case True
      let ?c = "c\<lparr>or_features := or_features c @ [f]\<rparr>"
      have step: "vad_group_step f (segs, Some c) = (segs, Some ?c)"
        using True by (simp add: vad_group_step_def)
      have "or_features ?c \<noteq> []" and "or_start ?c = ft_time (hd (or_features ?c))"
        using 2 by simp_all
      from Cons.IH(2) [OF this, of segs] step True show ?thesis by simp
    next
      case False
      let ?out = "if 10 < length (or_features c) then [run_segment (or_features c)] else []"
      have "vad_group_step f (segs, Some c) = (segs @ ?out, None)"
        using False 2 by (simp add: vad_group_step_def run_segment_def)
      with Cons.IH(1) [of "segs @ ?out"] False show ?thesis by simp
    qed
  }
qed

lemma vad_segments_closed_runs:
  "vad_segments fs = map run_segment (filter (\<lambda>r. 10 < length r) (closed_runs isVoiced fs))"
  using fold_vad_group_step(1) [of fs "[]"] by (simp add: vad_segments_def)

lemma dropWhile_nonempty_last:
  "xs \<noteq> [] \<Longrightarrow> \<not> P (last xs) \<Longrightarrow> dropWhile P xs \<noteq> []"
  by (induction xs) (auto split: if_splits)

lemma dropWhile_last:
  "dropWhile P xs \<noteq> [] \<Longrightarrow> last (dropWhile P xs) = last xs"
  by (induction xs) (auto split: if_splits)

lemma closed_runs_eq_runs_of:
  "xs = [] \<or> \<not> P (last xs) \<Longrightarrow> closed_runs P xs = runs_of P xs"
proof (induction P xs rule: closed_runs.induct)
  case (1 P)
  show ?case by simp
next
  case (2 P x xs)
  show ?case
  proof (cases "P x")
    case True
    with "2.prems" have ne: "xs \<noteq> []" and l: "\<not> P (last xs)"
      by (auto split: if_splits)
    from dropWhile_nonempty_last [of xs P, OF ne l] have d: "dropWhile P xs \<noteq> []" .
    have "dropWhile P xs = [] \<or> \<not> P (last (dropWhile P xs))"
      using dropWhile_last [OF d] l by simp
    from "2.IH"(1) [OF True d this] True d show ?thesis by simp
  next
    case False
    have "xs = [] \<or> \<not> P (last xs)" using "2.prems" by (auto split: if_splits)
    from "2.IH"(2) [OF False this] False show ?thesis by simp
  qed
qed

lemma closed_runs_all: "\<forall>x \<in> set xs. P x \<Longrightarrow> closed_runs P xs = []"
  by (cases xs) simp_all

lemma runs_of_all:
  assumes "xs \<noteq> []" and "\<forall>x \<in> set xs. P x"
  shows "runs_of P xs = [xs]"
proof (cases xs)
  case Nil
  with assms show ?thesis by simp
next
  case (Cons y ys)
  with assms have d: "dropWhile P ys = []" and t: "takeWhile P ys = ys" and y: "P y"
    by simp_all
  show ?thesis unfolding Cons using y
    by (simp add: d t del: dropWhile_eq_Nil_conv takeWhile_eq_all_conv)
qed

lemma takeWhile_append_run:
  "dropWhile P xs \<noteq> [] \<Longrightarrow> takeWhile P (xs @ run) = takeWhile P xs"
  by (induction xs) (auto split: if_splits)

lemma dropWhile_append_run:
  "dropWhile P xs \<noteq> [] \<Longrightarrow> dropWhile P (xs @ run) = dropWhile P xs @ run"
  by (induction xs) (auto split: if_splits)

lemma runs_append_trailing:
  "\<forall>x \<in> set run. P x \<Longrightarrow> pre = [] \<or> \<not> P (last pre) \<Longrightarrow>
   closed_runs P (pre @ run) = closed_runs P pre \<and>
   (run \<noteq> [] \<longrightarrow> runs_of P (pre @ run) = runs_of P pre @ [run])"
proof (induction P pre rule: closed_runs.induct)
  case (1 P)
  then show ?case using closed_runs_all [of run P] runs_of_all [of run P] by simp
next
  case (2 P x xs)
  note run = "2.prems"(1)
  show ?case
  proof (cases "P x")
    case True
    with "2.prems"(2) have ne: "xs \<noteq> []" and l: "\<not> P (last xs)"
      by (auto split: if_splits)
    from dropWhile_nonempty_last [of xs P, OF ne l] have d: "dropWhile P xs \<noteq> []" .
    have "dropWhile P xs = [] \<or> \<not> P (last (dropWhile P xs))"
      using dropWhile_last [OF d] l by simp
    from "2.IH"(1) [OF True d run this] True d show ?thesis
      by (simp add: takeWhile_append_run dropWhile_append_run
          del: dropWhile_eq_Nil_conv)
  next
    case False
    have "xs = [] \<or> \<not> P (last xs)" using "2.prems"(2) by (auto split: if_splits)
    from "2.IH"(2) [OF False run this] False show ?thesis by simp
  qed
qed

lemma vad_loop_step:
  "0 < hopSize \<and> int i < int (length chan) - int frameSize \<Longrightarrow>
   vad_loop frameSize hopSize rate chan i st =
   vad_loop frameSize hopSize rate chan (i + hopSize) (vad_step frameSize rate chan i st)"
  by (subst vad_loop.simps) simp

lemma vad_loop_stop:
  "\<not> (0 < hopSize \<and> int i < int (length chan) - int frameSize) \<Longrightarrow>
   vad_loop frameSize hopSize rate chan i st = st"
  by (subst vad_loop.simps) auto


lemma vad_loop_frame_starts:
  "vs_features (vad_loop frameSize hopSize rate chan i st) =
     vs_features st @
     map (frame_feature frameSize rate chan) (frame_starts frameSize hopSize (length chan) i) \<and>
   vs_progress (vad_loop frameSize hopSize rate chan i st) =
     vs_progress st @
     map (\<lambda>j. 10 + Math_round ((real j / real (length chan)) * 40))
       (filter (at_stride 10000) (frame_starts frameSize hopSize (length chan) i))"
proof (induction frameSize hopSize rate chan i st rule: vad_loop.induct)
  case (1 frameSize hopSize rate chan i st)
  show ?case
  proof (cases "0 < hopSize \<and> int i < int (length chan) - int frameSize")
    case True
    have starts: "frame_starts frameSize hopSize (length chan) i =
        i # frame_starts frameSize hopSize (length chan) (i + hopSize)"
      using True by (subst frame_starts.simps) simp
    from "1.IH" [OF True] show ?thesis
      by (simp only: vad_loop_step [OF True] starts) (simp add: vad_step_def Let_def)
  next
    case False
    have "frame_starts frameSize hopSize (length chan) i = []"
      using False by (subst frame_starts.simps) auto
    then show ?thesis by (simp add: vad_loop_stop [OF False])
  qed
qed

lemma vad_features_frames:
  "vad_features buf =
     map (frame_feature (vad_frameSize buf) (sampleRate buf) (channelData buf))
       (frame_starts (vad_frameSize buf) (vad_hopSize buf) (length (channelData buf)) 0)"
  by (simp add: vad_features_def vad_scan_of_def vad_loop_frame_starts)

lemma isVoiced_frame_feature:
  "isVoiced (frame_feature frameSize rate chan i) =
     (1 / 100 < calculateEnergy (take frameSize (drop i chan)))"
  by (simp add: frame_feature_def Let_def)

lemma ft_time_frame_feature: "ft_time (frame_feature frameSize rate chan i) = real i / rate"
  by (simp add: frame_feature_def Let_def)


lemma segmentByVADClustering_returns:
  "0 < vad_hopSize buf \<Longrightarrow>
   map_option snd (segmentByVADClustering buf params) = Some (vad_segments (vad_features buf))"
  by (simp add: segmentByVADClustering_def)


text \<open>
  Claim C10. When the frame sequence of a buffer ends with a run of voiced frames (the
  frames \<open>run\<close>, after the frames \<open>pre\<close> that are empty or end with an unvoiced frame),
  that run is a maximal run of voiced frames of the buffer and yet the returned segments
  are those of the runs of more than 10 frames of \<open>pre\<close> alone: whatever its length, the
  trailing run gives no segment.
\<close>

theorem segmentByVADClustering_trailing_run:
  assumes "0 < vad_hopSize buf"
    and "vad_features buf = pre @ run"
    and "run \<noteq> []"
    and "\<forall>f \<in> set run. isVoiced f"
    and "pre = [] \<or> \<not> isVoiced (last pre)"
  shows "runs_of isVoiced (vad_features buf) = runs_of isVoiced pre @ [run] \<and>
         map_option snd (segmentByVADClustering buf params) =
           Some (map run_segment (filter (\<lambda>r. 10 < length r) (runs_of isVoiced pre)))"
  using segmentByVADClustering_returns [OF assms(1)]
    runs_append_trailing [of run isVoiced pre, OF assms(4) assms(5)]
    closed_runs_eq_runs_of [of pre isVoiced, OF assms(5)] assms(2,3)
  by (simp add: vad_segments_closed_runs)

lemma replicate_numeral: "replicate (numeral k) x = x # replicate (pred_numeral k) x"
  by (simp add: numeral_eq_Suc)






lemma two_bursts_features:
  "vad_features two_bursts =
     map (frame_feature 2 100 (replicate 12 1 @ [0, 0, 0] @ replicate 14 1))
       [0, 1, 2, 3, 4, 5, 6, 7, 8, 9, 10, 11, 12, 13, 14, 15, 16, 17, 18, 19, 20, 21, 22, 23, 24,
        25, 26]"
proof -
  have "frame_starts 2 1 29 0 =
      [0, 1, 2, 3, 4, 5, 6, 7, 8, 9, 10, 11, 12, 13, 14, 15, 16, 17, 18, 19, 20, 21, 22, 23, 24,
       25, 26]" by code_simp
  then show ?thesis
    by (simp add: vad_features_frames two_bursts_def vad_frameSize_def vad_hopSize_def)
qed

theorem segmentByVADClustering_trailing_run_witness:
  "0 < vad_hopSize two_bursts \<and>
   map isVoiced (take 14 (vad_features two_bursts)) = replicate 12 True @ [False, False] \<and>
   map isVoiced (drop 14 (vad_features two_bursts)) = replicate 13 True \<and>
   map_option snd (segmentByVADClustering two_bursts (silence_params 0 0 0)) =
     Some [\<lparr>ps_start = 0, ps_end = 11 / 100, ps_speaker = Spk 1, ps_f0 = None\<rparr>] \<and>
   map run_segment (filter (\<lambda>r. 10 < length r)
      (runs_of isVoiced (take 14 (vad_features two_bursts)))) =
     [\<lparr>ps_start = 0, ps_end = 11 / 100, ps_speaker = Spk 1, ps_f0 = None\<rparr>]"
proof -
  let ?pre = "take 14 (vad_features two_bursts)" and ?run = "drop 14 (vad_features two_bursts)"
  have hop: "0 < vad_hopSize two_bursts"
    by (simp add: vad_hopSize_def two_bursts_def)
  have split: "vad_features two_bursts = ?pre @ ?run" by simp
  have pre: "map isVoiced ?pre = replicate 12 True @ [False, False]"
    by (simp add: two_bursts_features isVoiced_frame_feature calculateEnergy_def replicate_numeral)
  have run: "map isVoiced ?run = replicate 13 True"
    by (simp add: two_bursts_features isVoiced_frame_feature calculateEnergy_def replicate_numeral)
  have ne: "?run \<noteq> []" using run by auto
  have "set (map isVoiced ?run) \<subseteq> {True}" by (simp only: run) simp
  then have all: "\<forall>f \<in> set ?run. isVoiced f" by auto
  have "?pre \<noteq> []" using pre by auto
  moreover have "last (map isVoiced ?pre) = False" by (simp only: pre) simp
  ultimately have "\<not> isVoiced (last ?pre)" by (simp add: last_map)
  then have closed: "?pre = [] \<or> \<not> isVoiced (last ?pre)" by simp
  from segmentByVADClustering_trailing_run [OF hop split ne all closed, of "silence_params 0 0 0"]
  have out: "map_option snd (segmentByVADClustering two_bursts (silence_params 0 0 0)) =
      Some (map run_segment (filter (\<lambda>r. 10 < length r) (runs_of isVoiced ?pre)))"
    by (rule conjunct2)
  have "vad_segments (vad_features two_bursts) =
      [\<lparr>ps_start = 0, ps_end = 11 / 100, ps_speaker = Spk 1, ps_f0 = None\<rparr>]"
    by (simp add: two_bursts_features vad_segments_def vad_group_step_def isVoiced_frame_feature
        ft_time_frame_feature calculateEnergy_def replicate_numeral)
  with segmentByVADClustering_returns [OF hop, of "silence_params 0 0 0"]
  have "map_option snd (segmentByVADClustering two_bursts (silence_params 0 0 0)) =
      Some [\<lparr>ps_start = 0, ps_end = 11 / 100, ps_speaker = Spk 1, ps_f0 = None\<rparr>]"
    by simp
  with hop pre run out show ?thesis by simp
qed

subsection \<open>Clustering\<close>

lemma js_slice_prefix: "0 \<le> k \<Longrightarrow> js_slice xs 0 k = take (nat k) xs"
  by (simp add: js_slice_def Let_def min_def)

text \<open>
  Claim C9, as the code has it. When the input has fewer than \<open>k\<close> values,
  \<^verbatim>\<open>kMeansClustering\<close> returns \<^verbatim>\<open>values.slice(0, k)\<close>, which is the whole input,
  unchanged and in its order, without any round of clustering; the result therefore has
  fewer than \<open>k\<close> values.
\<close>

theorem kMeansClustering_degenerate:
  assumes "int (length vals) < k"
  shows "kMeansClustering vals k = Inr (take (nat k) vals) \<and>
         kMeansClustering vals k = Inr vals \<and>
         length vals < nat k"
  using assms by (simp add: kMeansClustering_def js_slice_prefix)

theorem kMeansClustering_degenerate_witness:
  "int (length [100::real]) < 2 \<and> kMeansClustering [100] 2 = Inr [100]"
  using kMeansClustering_degenerate [of "[100]" 2] by simp

theorem kMeansClustering_fewer_than_k:
  "int (length [100::real]) < 2 \<and> kMeansClustering [100] 2 = Inr [100] \<and>
   length [100::real] \<noteq> nat 2"
  by (simp add: kMeansClustering_def js_slice_def)

subsection \<open>Pitch estimation\<close>

lemma f0_loop_step:
  "of_int lag < bound \<Longrightarrow>
   f0_loop segment bound lag st = f0_loop segment bound (lag + 1) (f0_step segment lag st)"
  by (subst f0_loop.simps) simp

lemma f0_loop_stop: "\<not> of_int lag < bound \<Longrightarrow> f0_loop segment bound lag st = st"
  by (subst f0_loop.simps) simp

lemma f0_step_first:
  "0 \<le> lag \<Longrightarrow> f0_step segment lag (None, b0) = (Some (autocorrelation segment (nat lag)), lag)"
  by (simp add: f0_step_def Let_def)

lemma first_argmax_single: "first_argmax segment lo (lo + 1) lo"
proof -
  have "l = lo" if "l \<in> {lo..<lo + 1}" for l using that by auto
  then show ?thesis by (auto simp: first_argmax_def)
qed

lemma first_argmax_extend:
  assumes "first_argmax segment lo lag b" and "0 \<le> lag"
  shows "\<exists>b'. first_argmax segment lo (lag + 1) b' \<and>
              f0_step segment lag (Some (autocorrelation segment (nat b)), b) =
                (Some (autocorrelation segment (nat b')), b')"
proof -
  let ?ac = "\<lambda>l. autocorrelation segment (nat l)"
  from assms(1) have range: "lo \<le> b" "b < lag"
    and le: "\<And>l. l \<in> {lo..<lag} \<Longrightarrow> ?ac l \<le> ?ac b"
    and lt: "\<And>l. l \<in> {lo..<b} \<Longrightarrow> ?ac l < ?ac b"
    by (simp_all add: first_argmax_def)
  show ?thesis
  proof (cases "?ac lag > ?ac b")
    case True
    have "?ac l \<le> ?ac lag" if "l \<in> {lo..<lag + 1}" for l
    proof (cases "l = lag")
      case False
      with that have "l \<in> {lo..<lag}" by auto
      from le [OF this] True show ?thesis by simp
    qed simp
    moreover have "?ac l < ?ac lag" if "l \<in> {lo..<lag}" for l
      using le [OF that] True by simp
    ultimately have "first_argmax segment lo (lag + 1) lag"
      using range by (simp add: first_argmax_def)
    moreover have "f0_step segment lag (Some (?ac b), b) = (Some (?ac lag), lag)"
      using True assms(2) by (simp add: f0_step_def Let_def)
    ultimately show ?thesis by blast
  next
    case False
    have "?ac l \<le> ?ac b" if "l \<in> {lo..<lag + 1}" for l
    proof (cases "l = lag")
      case True
      with False show ?thesis by simp
    next
      case False
      with that have "l \<in> {lo..<lag}" by auto
      from le [OF this] show ?thesis .
    qed
    then have "first_argmax segment lo (lag + 1) b"
      using range lt by (simp add: first_argmax_def)
    moreover have "f0_step segment lag (Some (?ac b), b) = (Some (?ac b), b)"
      using False assms(2) by (simp add: f0_step_def Let_def)
    ultimately show ?thesis by blast
  qed
qed

lemma f0_loop_running:
  "0 \<le> lo \<Longrightarrow> lo \<le> lag \<Longrightarrow> first_argmax segment lo lag b \<Longrightarrow>
   \<exists>b'. first_argmax segment lo (max lag \<lceil>bound\<rceil>) b' \<and>
        f0_loop segment bound lag (Some (autocorrelation segment (nat b)), b) =
          (Some (autocorrelation segment (nat b')), b')"
proof (induction segment bound lag "(Some (autocorrelation segment (nat b)), b)"
    arbitrary: b rule: f0_loop.induct)
  case (1 segment bound lag)
  show ?case
  proof (cases "of_int lag < bound")
    case True
    then have lt: "lag < \<lceil>bound\<rceil>" by (simp add: less_ceiling_iff)
    from "1.prems" have nonneg: "0 \<le> lag" by simp
    from first_argmax_extend [OF "1.prems"(3) nonneg]
    obtain b' where b': "first_argmax segment lo (lag + 1) b'"
      and step: "f0_step segment lag (Some (autocorrelation segment (nat b)), b) =
                  (Some (autocorrelation segment (nat b')), b')" by blast
    have "lo \<le> lag + 1" using "1.prems"(2) by simp
    from "1.hyps" [OF True step "1.prems"(1) this b']
    obtain b'' where "first_argmax segment lo (max (lag + 1) \<lceil>bound\<rceil>) b''"
      and "f0_loop segment bound (lag + 1) (Some (autocorrelation segment (nat b')), b') =
            (Some (autocorrelation segment (nat b'')), b'')" by blast
    moreover have "max (lag + 1) \<lceil>bound\<rceil> = max lag \<lceil>bound\<rceil>" using lt by simp
    ultimately show ?thesis
      by (simp only: f0_loop_step [OF True] step) auto
  next
    case False
    then have "\<lceil>bound\<rceil> \<le> lag" by (simp add: ceiling_le_iff not_less)
    then have "max lag \<lceil>bound\<rceil> = lag" by simp
    with "1.prems"(3) show ?thesis
      by (simp only: f0_loop_stop [OF False]) auto
  qed
qed

lemma f0_loop_argmax:
  assumes "0 \<le> lo" and "lo < \<lceil>bound\<rceil>"
  shows "\<exists>b. first_argmax segment lo \<lceil>bound\<rceil> b \<and>
             f0_loop segment bound lo (None, b0) = (Some (autocorrelation segment (nat b)), b)"
proof -
  have enter: "of_int lo < bound" using assms(2) by (simp add: less_ceiling_iff)
  have "max (lo + 1) \<lceil>bound\<rceil> = \<lceil>bound\<rceil>" using assms(2) by simp
  moreover have "lo \<le> lo + 1" by simp
  from f0_loop_running [where lag = "lo + 1" and b = lo and segment = segment and bound = bound,
      OF assms(1) this first_argmax_single]
  have "\<exists>b'. first_argmax segment lo (max (lo + 1) \<lceil>bound\<rceil>) b' \<and>
        f0_loop segment bound (lo + 1) (Some (autocorrelation segment (nat lo)), lo) =
          (Some (autocorrelation segment (nat b')), b')" .
  ultimately show ?thesis
    by (simp only: f0_loop_step [OF enter] f0_step_first [OF assms(1)])
qed

lemma f0_loop_empty: "\<lceil>bound\<rceil> \<le> lo \<Longrightarrow> f0_loop segment bound lo st = st"
  by (rule f0_loop_stop) (simp add: ceiling_le_iff not_less)

lemma f0_minLag_nonneg: "0 < sampleRate buf \<Longrightarrow> 0 < fMax \<Longrightarrow> 0 \<le> f0_minLag buf fMax"
  by (simp add: f0_minLag_def)

lemma extractF0_cases:
  assumes "0 < sampleRate buf" and "0 < fMax"
  shows "(length (f0_segment buf startTime endTime) < 400 \<longrightarrow>
            extractF0 buf startTime endTime fMin fMax = None) \<and>
         (\<lceil>f0_bound buf (f0_segment buf startTime endTime) fMin\<rceil> \<le> f0_minLag buf fMax \<longrightarrow>
            extractF0 buf startTime endTime fMin fMax = None) \<and>
         (400 \<le> length (f0_segment buf startTime endTime) \<and>
          f0_minLag buf fMax < \<lceil>f0_bound buf (f0_segment buf startTime endTime) fMin\<rceil> \<longrightarrow>
            (\<exists>b. first_argmax (f0_segment buf startTime endTime) (f0_minLag buf fMax)
                   \<lceil>f0_bound buf (f0_segment buf startTime endTime) fMin\<rceil> b \<and>
                 extractF0 buf startTime endTime fMin fMax =
                   (if 0 < b then Some (sampleRate buf / of_int b) else None)))"
proof (intro conjI impI)
  show "extractF0 buf startTime endTime fMin fMax = None"
    if "length (f0_segment buf startTime endTime) < 400"
    using that by (simp add: extractF0_def Let_def)
next
  show "extractF0 buf startTime endTime fMin fMax = None"
    if "\<lceil>f0_bound buf (f0_segment buf startTime endTime) fMin\<rceil> \<le> f0_minLag buf fMax"
    using f0_loop_empty [OF that] by (simp add: extractF0_def Let_def)
next
  assume a: "400 \<le> length (f0_segment buf startTime endTime) \<and>
      f0_minLag buf fMax < \<lceil>f0_bound buf (f0_segment buf startTime endTime) fMin\<rceil>"
  from f0_loop_argmax [OF f0_minLag_nonneg [OF assms] conjunct2 [OF a], of _ 0]
  obtain b where "first_argmax (f0_segment buf startTime endTime) (f0_minLag buf fMax)
                   \<lceil>f0_bound buf (f0_segment buf startTime endTime) fMin\<rceil> b"
    and "f0_loop (f0_segment buf startTime endTime)
           (f0_bound buf (f0_segment buf startTime endTime) fMin) (f0_minLag buf fMax) (None, 0) =
         (Some (autocorrelation (f0_segment buf startTime endTime) (nat b)), b)"
    by blast
  with a show "\<exists>b. first_argmax (f0_segment buf startTime endTime) (f0_minLag buf fMax)
                   \<lceil>f0_bound buf (f0_segment buf startTime endTime) fMin\<rceil> b \<and>
                 extractF0 buf startTime endTime fMin fMax =
                   (if 0 < b then Some (sampleRate buf / of_int b) else None)"
    by (auto simp: extractF0_def Let_def)
qed









subsection \<open>The orchestrator\<close>

lemma silence_step_tags:
  "\<forall>s \<in> set (sc_segments st). ps_f0 s = None \<and> ps_speaker s = Spk 1 \<Longrightarrow>
   \<forall>s \<in> set (sc_segments (silence_step stride n rate threshold minDuration pauseTol i x st)).
     ps_f0 s = None \<and> ps_speaker s = Spk 1"
  by (auto simp: silence_step_def Let_def)

lemma silence_loop_tags:
  "\<forall>s \<in> set (sc_segments st). ps_f0 s = None \<and> ps_speaker s = Spk 1 \<Longrightarrow>
   \<forall>s \<in> set (sc_segments (silence_loop stride n rate threshold minDuration pauseTol i xs st)).
     ps_f0 s = None \<and> ps_speaker s = Spk 1"
proof (induction xs arbitrary: i st)
  case Nil
  then show ?case by simp
next
  case (Cons x xs)
  from Cons.IH [OF silence_step_tags [OF Cons.prems]] show ?case by simp
qed

lemma segmentBySilence_tags:
  "\<forall>s \<in> set (snd (segmentBySilence buf params)). ps_f0 s = None \<and> ps_speaker s = Spk 1"
proof -
  have "\<forall>s \<in> set (sc_segments silence_init). ps_f0 s = None \<and> ps_speaker s = Spk 1"
    by (simp add: silence_init_def)
  from silence_loop_tags [OF this]
  show ?thesis by (auto simp: segmentBySilence_def segmentBySilence_every_def Let_def)
qed

lemma extractF0_inverted_bounds:
  assumes "0 < sampleRate buf" and "0 < fMax" and "fMax \<le> fMin"
  shows "extractF0 buf startTime endTime fMin fMax = None"
proof -
  let ?segment = "f0_segment buf startTime endTime"
  have "sampleRate buf / fMin \<le> sampleRate buf / fMax"
    using assms by (simp add: frac_le)
  then have "f0_maxLag buf fMin \<le> f0_minLag buf fMax"
    by (simp add: f0_maxLag_def f0_minLag_def floor_mono)
  moreover have "\<lceil>f0_bound buf ?segment fMin\<rceil> \<le> f0_maxLag buf fMin"
    by (simp add: f0_bound_def ceiling_le_iff)
  ultimately have "\<lceil>f0_bound buf ?segment fMin\<rceil> \<le> f0_minLag buf fMax" by simp
  with extractF0_cases [OF assms(1,2), of startTime endTime fMin] show ?thesis by blast
qed

lemma segmentBySilenceAndF0_inverted_bounds:
  assumes "0 < sampleRate buf" and "0 < f0Max params" and "f0Max params \<le> f0Min params"
  shows "segmentBySilenceAndF0 buf params =
           Inr (map (\<lambda>p. p * (1 / 2)) (fst (segmentBySilence buf params)) @
                map (\<lambda>i. 50 + Math_round ((real i / real (length (snd (segmentBySilence buf params)))) * 50))
                  [0..<length (snd (segmentBySilence buf params))],
                snd (segmentBySilence buf params))"
proof -
  let ?segs = "snd (segmentBySilence buf params)"
  have same: "map (\<lambda>s. s\<lparr>ps_f0 := extractF0 buf (ps_start s) (ps_end s)
                                     (f0Min params) (f0Max params)\<rparr>) ?segs = ?segs"
    using segmentBySilence_tags [of buf params]
    by (simp add: extractF0_inverted_bounds [OF assms] map_idI)
  have "f0_values ?segs = []"
    using segmentBySilence_tags [of buf params] by (simp add: f0_values_def)
  with same show ?thesis by (simp add: segmentBySilenceAndF0_def Let_def)
qed

lemma fold_createSegment:
  "fold (\<lambda>(k, seg) t. snd (createSegment (ids k) (ps_start seg) (ps_end seg)
                            (speaker_number (ps_speaker seg)) [] t))
     (enumerate n segs) this =
   this\<lparr>segments := segments this @
     map (\<lambda>(k, seg). \<lparr>seg_id = ids k, seg_start = ps_start seg, seg_end = ps_end seg,
                      seg_speaker = speaker_number (ps_speaker seg), seg_transcription = [],
                      seg_color = speakerColor (speaker_number (ps_speaker seg))\<rparr>)
       (enumerate n segs)\<rparr>"
  by (induction segs arbitrary: n this) (simp_all add: createSegment_def Let_def)

text \<open>
  Claim C3, as the code has it. \<^verbatim>\<open>runAutoSegmentation\<close> does not check its parameters.
  With an audio buffer loaded (positive sample rate) and \<open>0 < f0Max \<le> f0Min\<close>, the
  strategy \<^verbatim>\<open>silence_f0\<close> runs to its end: no lag is a candidate, so no pitch is
  estimated, the segments of the silence scan are returned with their tag \<^verbatim>\<open>spk1\<close> and
  no \<open>f0\<close>, and one segment of speaker 1 is added to the project for each of them.
\<close>

theorem runAutoSegmentation_inverted_bounds:
  assumes "audioBuffer this = Some buf" and "0 < sampleRate buf"
    and "0 < f0Max params" and "f0Max params \<le> f0Min params"
  shows "\<exists>r. runAutoSegmentation this ''silence_f0'' params ids = Returns r \<and>
             rr_segments r = snd (segmentBySilence buf params) \<and>
             (\<forall>s \<in> set (rr_segments r). ps_f0 s = None \<and> ps_speaker s = Spk 1) \<and>
             segments (rr_app r) = segments this @
               map (\<lambda>(k, seg). \<lparr>seg_id = ids k, seg_start = ps_start seg, seg_end = ps_end seg,
                                seg_speaker = 1, seg_transcription = [],
                                seg_color = speakerColor 1\<rparr>)
                 (enumerate 0 (rr_segments r))"
proof -
  let ?segs = "snd (segmentBySilence buf params)"
  have tags: "\<forall>s \<in> set ?segs. ps_f0 s = None \<and> ps_speaker s = Spk 1"
    by (rule segmentBySilence_tags)
  have "\<forall>ks \<in> set (enumerate 0 ?segs). ps_speaker (snd ks) = Spk 1"
    using tags by (auto simp: in_set_enumerate_eq)
  then have created:
    "map (\<lambda>(k, seg). \<lparr>seg_id = ids k, seg_start = ps_start seg, seg_end = ps_end seg,
                      seg_speaker = speaker_number (ps_speaker seg), seg_transcription = [],
                      seg_color = speakerColor (speaker_number (ps_speaker seg))\<rparr>)
       (enumerate 0 ?segs) =
     map (\<lambda>(k, seg). \<lparr>seg_id = ids k, seg_start = ps_start seg, seg_end = ps_end seg,
                      seg_speaker = 1, seg_transcription = [], seg_color = speakerColor 1\<rparr>)
       (enumerate 0 ?segs)"
    by (intro map_cong) auto
  show ?thesis
    using tags created
    by (simp add: runAutoSegmentation_def run_strategy_def assms(1)
        segmentBySilenceAndF0_inverted_bounds [OF assms(2-4)] fold_createSegment)
qed

lemma silence_step_progress:
  "sc_progress (silence_step stride n rate threshold minDuration pauseTol i x st) =
     sc_progress st @
     map (\<lambda>j. Math_round ((real j / real n) * 100)) (filter (at_stride stride) [i])"
  by (simp add: silence_step_def Let_def)

lemma silence_loop_progress:
  "sc_progress (silence_loop stride n rate threshold minDuration pauseTol i xs st) =
     sc_progress st @
     map (\<lambda>j. Math_round ((real j / real n) * 100))
       (filter (at_stride stride) [i..<i + length xs])"
proof (induction xs arbitrary: i st)
  case Nil
  show ?case by simp
next
  case (Cons x xs)
  have "[i..<i + length (x # xs)] = i # [Suc i..<Suc i + length xs]"
    by (simp add: upt_rec)
  with Cons.IH [of "Suc i"] show ?case
    by (simp add: silence_step_progress)
qed

lemma segmentBySilence_every_progress:
  "fst (segmentBySilence_every stride buf params) =
     map (\<lambda>j. Math_round ((real j / real (length (channelData buf))) * 100))
       (filter (at_stride stride) [0..<length (channelData buf)])"
  by (simp add: segmentBySilence_every_def Let_def silence_loop_progress silence_init_def)

lemma silence_step_loud:
  "threshold < \<bar>x\<bar> \<Longrightarrow>
   scan_core (silence_step stride n rate threshold minDuration pauseTol i x st) =
     (sc_segments st, True, if inSpeech st then segmentStart st else real i / rate, real i / rate)"
  by (simp add: silence_step_def scan_core_def Let_def)

lemma silence_loop_loud:
  "\<forall>x \<in> set xs. threshold < \<bar>x\<bar> \<Longrightarrow> xs \<noteq> [] \<Longrightarrow>
   scan_core (silence_loop stride n rate threshold minDuration pauseTol i xs st) =
     (sc_segments st, True, if inSpeech st then segmentStart st else real i / rate,
      real (i + length xs - 1) / rate)"
proof (induction xs arbitrary: i st)
  case Nil
  then show ?case by simp
next
  case (Cons x xs)
  let ?st = "silence_step stride n rate threshold minDuration pauseTol i x st"
  from Cons.prems have x: "threshold < \<bar>x\<bar>" by simp
  note step = silence_step_loud [OF x, of stride n rate minDuration pauseTol i st]
  show ?case
  proof (cases "xs = []")
    case True
    with step show ?thesis by simp
  next
    case False
    from Cons.prems have "\<forall>x \<in> set xs. threshold < \<bar>x\<bar>" by simp
    from Cons.IH [OF this False, of "Suc i" ?st] step show ?thesis
      by (simp add: scan_core_def)
  qed
qed

lemma segmentBySilence_loud_buffer:
  "snd (segmentBySilence loud_buffer inverted_params) =
     [\<lparr>ps_start = 0, ps_end = 1, ps_speaker = Spk 1, ps_f0 = None\<rparr>]"
proof -
  have "\<forall>x \<in> set (replicate 400 (1::real)). 1 / 2 < \<bar>x\<bar>" and "replicate 400 (1::real) \<noteq> []"
    by simp_all
  from silence_loop_loud [OF this, of 100000 400 400 "1 / 2" 0 0 silence_init]
  show ?thesis
    by (simp add: segmentBySilence_def segmentBySilence_every_def loud_buffer_def
        inverted_params_def silence_params_def scan_core_def silence_init_def Let_def)
qed

lemma stride_filter_empty:
  "\<forall>j \<in> {a..<b}. \<not> at_stride stride j \<Longrightarrow> filter (at_stride stride) [a..<b] = []"
  by (simp add: filter_empty_conv)

lemma upt_split: "a \<le> b \<Longrightarrow> b \<le> c \<Longrightarrow> [a..<c] = [a..<b] @ [b..<c]"
  by (metis le_Suc_ex upt_add_eq_append)

lemma stride_filter_first:
  "0 < n \<Longrightarrow> n \<le> stride \<Longrightarrow> filter (at_stride stride) [0..<n] = [0]"
proof -
  assume n: "0 < n" "n \<le> stride"
  have "[0..<n] = [0..<Suc 0] @ [Suc 0..<n]" using n by (intro upt_split) simp_all
  moreover have "filter (at_stride stride) [Suc 0..<n] = []"
    using n by (intro stride_filter_empty) (simp add: at_stride_def)
  moreover have "at_stride stride 0" using n by (simp add: at_stride_def)
  ultimately show ?thesis by simp
qed

lemma segmentBySilence_loud_progress:
  "fst (segmentBySilence loud_buffer inverted_params) = [0]"
proof -
  have "filter (at_stride 100000) [0..<400] = [0]"
    by (rule stride_filter_first) simp_all
  then show ?thesis
    by (simp add: segmentBySilence_def segmentBySilence_every_progress loud_buffer_def
        Math_round_def del: upt_rec_numeral)
qed

theorem runAutoSegmentation_inverted_bounds_witness:
  "audioBuffer loud_app = Some loud_buffer \<and> 0 < sampleRate loud_buffer \<and>
   0 < f0Max inverted_params \<and> f0Max inverted_params \<le> f0Min inverted_params \<and>
   (\<exists>r. runAutoSegmentation loud_app ''silence_f0'' inverted_params (\<lambda>k. ''seg_1'') = Returns r \<and>
        rr_segments r = [\<lparr>ps_start = 0, ps_end = 1, ps_speaker = Spk 1, ps_f0 = None\<rparr>] \<and>
        segments (rr_app r) =
          [\<lparr>seg_id = ''seg_1'', seg_start = 0, seg_end = 1, seg_speaker = 1,
            seg_transcription = [], seg_color = Some 0\<rparr>])"
proof -
  have h: "audioBuffer loud_app = Some loud_buffer" "0 < sampleRate loud_buffer"
    "0 < f0Max inverted_params" "f0Max inverted_params \<le> f0Min inverted_params"
    by (simp_all add: loud_app_def loud_buffer_def inverted_params_def new_app_def)
  have "segments loud_app = []" by (simp add: loud_app_def new_app_def)
  with runAutoSegmentation_inverted_bounds [OF h, of "\<lambda>k. ''seg_1''"] h
  show ?thesis
    by (simp only: segmentBySilence_loud_buffer)
       (auto simp: speakerColor_def js_rem_def speakerColors_length_def)
qed

theorem runAutoSegmentation_accepts_inverted_bounds:
  "f0Max inverted_params \<le> f0Min inverted_params \<and>
   400 \<le> length (f0_segment loud_buffer 0 1) \<and>
   runAutoSegmentation loud_app ''silence_f0'' inverted_params (\<lambda>k. ''seg_1'') =
     Returns \<lparr>rr_segments = [\<lparr>ps_start = 0, ps_end = 1, ps_speaker = Spk 1, ps_f0 = None\<rparr>],
              rr_app = loud_app\<lparr>segments :=
                [\<lparr>seg_id = ''seg_1'', seg_start = 0, seg_end = 1, seg_speaker = 1,
                  seg_transcription = [], seg_color = Some 0\<rparr>]\<rparr>,
              rr_progress = [0, 50], rr_bar = [0, 0, 50, 100]\<rparr>"
proof -
  have h: "0 < sampleRate loud_buffer"
    "0 < f0Max inverted_params" "f0Max inverted_params \<le> f0Min inverted_params"
    by (simp_all add: loud_buffer_def inverted_params_def)
  have len: "400 \<le> length (f0_segment loud_buffer 0 1)"
    by (simp add: f0_segment_def loud_buffer_def js_slice_def)
  have buf: "audioBuffer loud_app = Some loud_buffer" and none: "segments loud_app = []"
    by (simp_all add: loud_app_def new_app_def)
  have "runAutoSegmentation loud_app ''silence_f0'' inverted_params (\<lambda>k. ''seg_1'') =
     Returns \<lparr>rr_segments = [\<lparr>ps_start = 0, ps_end = 1, ps_speaker = Spk 1, ps_f0 = None\<rparr>],
              rr_app = loud_app\<lparr>segments :=
                [\<lparr>seg_id = ''seg_1'', seg_start = 0, seg_end = 1, seg_speaker = 1,
                  seg_transcription = [], seg_color = Some 0\<rparr>]\<rparr>,
              rr_progress = [0, 50], rr_bar = [0, 0, 50, 100]\<rparr>"
    by (simp add: runAutoSegmentation_def run_strategy_def buf none
        segmentBySilenceAndF0_inverted_bounds [OF h] fold_createSegment
        segmentBySilence_loud_buffer segmentBySilence_loud_progress
        Math_round_def speakerColor_def js_rem_def speakerColors_length_def)
  with h(3) len show ?thesis by simp
qed

subsection \<open>Progress\<close>

lemma Math_round_bounds:
  assumes "0 \<le> x" and "x \<le> of_int c"
  shows "0 \<le> Math_round x \<and> Math_round x \<le> of_int c"
proof -
  from round_mono [OF assms(1)] have "0 \<le> round x" by simp
  moreover from round_mono [OF assms(2)] have "round x \<le> c" by simp
  ultimately show ?thesis by (simp add: Math_round_def)
qed

lemma Math_round_mono: "x \<le> y \<Longrightarrow> Math_round x \<le> Math_round y"
  by (simp add: Math_round_def round_mono)

lemma Math_round_Ints: "Math_round x \<in> \<int>"
  by (simp add: Math_round_def)

lemma sorted_map_mono:
  "(\<And>x y. x \<le> y \<Longrightarrow> f x \<le> f y) \<Longrightarrow> sorted xs \<Longrightarrow> sorted (map f xs)"
  for f :: "nat \<Rightarrow> real"
  by (induction xs) auto

lemma scaled_index_mono:
  "i \<le> j \<Longrightarrow> (real i / real n) * c \<le> (real j / real n) * c" if "0 \<le> c" for c :: real
  using that by (simp add: divide_right_mono mult_right_mono)

lemma scaled_index_range:
  assumes "0 \<le> c" and "j < n"
  shows "0 \<le> (real j / real n) * of_int c \<and> (real j / real n) * of_int c \<le> of_int c"
proof -
  from assms(2) have le: "real j / real n \<le> 1" and ge: "0 \<le> real j / real n" by simp_all
  from assms(1) have c: "0 \<le> (of_int c :: real)" by simp
  from mult_right_mono [OF le c] have "(real j / real n) * of_int c \<le> of_int c" by simp
  moreover from mult_nonneg_nonneg [OF ge c] have "0 \<le> (real j / real n) * of_int c" .
  ultimately show ?thesis by blast
qed

lemma sorted_filter_nat: "sorted xs \<Longrightarrow> sorted (filter P xs)" for xs :: "nat list"
  by (induction xs) auto

lemma sorted_map_round:
  assumes "0 \<le> c" and "sorted xs"
  shows "sorted (map (\<lambda>j. Math_round ((real j / real n) * c)) xs)"
    and "sorted (map (\<lambda>j. a + Math_round ((real j / real n) * c)) xs)"
proof -
  have m: "Math_round ((real x / real n) * c) \<le> Math_round ((real y / real n) * c)"
    if "x \<le> y" for x y
    by (rule Math_round_mono) (rule scaled_index_mono [OF assms(1) that])
  show "sorted (map (\<lambda>j. Math_round ((real j / real n) * c)) xs)"
    using assms(2) by (rule sorted_map_mono [rotated]) (rule m)
  have "a + Math_round ((real x / real n) * c) \<le> a + Math_round ((real y / real n) * c)"
    if "x \<le> y" for x y
    using m [OF that] by simp
  then show "sorted (map (\<lambda>j. a + Math_round ((real j / real n) * c)) xs)"
    using assms(2) by (intro sorted_map_mono)
qed

lemma silence_progress_ok:
  fixes n stride :: nat
  defines "ps \<equiv> map (\<lambda>j. Math_round ((real j / real n) * 100)) (filter (at_stride stride) [0..<n])"
  shows "sorted ps \<and> (\<forall>p \<in> set ps. 0 \<le> p \<and> p \<le> 100 \<and> p \<in> \<int>)"
proof
  have "sorted (filter (at_stride stride) [0..<n])" by (rule sorted_filter_nat) simp
  then show "sorted ps"
    unfolding ps_def by (intro sorted_map_round) simp
next
  show "\<forall>p \<in> set ps. 0 \<le> p \<and> p \<le> 100 \<and> p \<in> \<int>"
  proof
    fix p assume "p \<in> set ps"
    then obtain j where j: "j < n" and p: "p = Math_round ((real j / real n) * 100)"
      by (auto simp: ps_def)
    from scaled_index_range [of 100 j n] j
    have "0 \<le> (real j / real n) * 100 \<and> (real j / real n) * 100 \<le> of_int 100" by simp
    with Math_round_bounds [of "(real j / real n) * 100" 100] p
    show "0 \<le> p \<and> p \<le> 100 \<and> p \<in> \<int>" by (simp add: Math_round_Ints)
  qed
qed

lemma segmentBySilence_progress_ok:
  "sorted (fst (segmentBySilence buf params)) \<and>
   (\<forall>p \<in> set (fst (segmentBySilence buf params)). 0 \<le> p \<and> p \<le> 100 \<and> p \<in> \<int>)"
  unfolding segmentBySilence_def segmentBySilence_every_progress
  by (rule silence_progress_ok)

lemma frame_starts_sorted:
  "sorted (frame_starts frameSize hopSize n i) \<and>
   (\<forall>j \<in> set (frame_starts frameSize hopSize n i). i \<le> j \<and> j < n)"
proof (induction frameSize hopSize n i rule: frame_starts.induct)
  case (1 frameSize hopSize n i)
  show ?case
  proof (cases "0 < hopSize \<and> int i < int n - int frameSize")
    case True
    from "1.IH" [OF True] True show ?thesis
      by (subst (1 2) frame_starts.simps) force
  next
    case False
    then show ?thesis by (subst (1 2) frame_starts.simps) auto
  qed
qed

lemma vad_progress_ok:
  fixes chan :: "real list" and frameSize hopSize :: nat
  defines "ps \<equiv> map (\<lambda>j. 10 + Math_round ((real j / real (length chan)) * 40))
                  (filter (at_stride 10000) (frame_starts frameSize hopSize (length chan) 0))"
  shows "sorted ps \<and> (\<forall>p \<in> set ps. 10 \<le> p \<and> p \<le> 50 \<and> p \<in> \<int>)"
proof
  have "sorted (filter (at_stride 10000) (frame_starts frameSize hopSize (length chan) 0))"
    using frame_starts_sorted [of frameSize hopSize "length chan" 0]
    by (intro sorted_filter_nat) simp
  then show "sorted ps"
    unfolding ps_def by (intro sorted_map_round) simp
next
  show "\<forall>p \<in> set ps. 10 \<le> p \<and> p \<le> 50 \<and> p \<in> \<int>"
  proof
    fix p assume "p \<in> set ps"
    then obtain j where j: "j < length chan"
      and p: "p = 10 + Math_round ((real j / real (length chan)) * 40)"
      using frame_starts_sorted [of frameSize hopSize "length chan" 0] by (auto simp: ps_def)
    from scaled_index_range [of 40 j "length chan"] j
    have "0 \<le> (real j / real (length chan)) * 40 \<and>
          (real j / real (length chan)) * 40 \<le> of_int 40" by simp
    with Math_round_bounds [of "(real j / real (length chan)) * 40" 40] p
    show "10 \<le> p \<and> p \<le> 50 \<and> p \<in> \<int>" by (simp add: Math_round_Ints)
  qed
qed

lemma segmentByVADClustering_progress_ok:
  assumes "segmentByVADClustering buf params = Some (ps, segs)"
  shows "sorted ps \<and> (\<forall>p \<in> set ps. 0 \<le> p \<and> p \<le> 100 \<and> p \<in> \<int>) \<and> last ps = 100"
proof -
  let ?mid = "map (\<lambda>j. 10 + Math_round ((real j / real (length (channelData buf))) * 40))
      (filter (at_stride 10000)
         (frame_starts (vad_frameSize buf) (vad_hopSize buf) (length (channelData buf)) 0))"
  from assms have ps: "ps = [10] @ ?mid @ [50] @ [100]"
    by (auto simp: segmentByVADClustering_def vad_scan_of_def vad_loop_frame_starts
        split: if_splits)
  from vad_progress_ok [of "channelData buf" "vad_frameSize buf" "vad_hopSize buf"]
  have mid: "sorted ?mid" "\<forall>p \<in> set ?mid. 10 \<le> p \<and> p \<le> 50 \<and> p \<in> \<int>" by simp_all
  have "sorted ps" unfolding ps using mid by (auto simp: sorted_append)
  moreover have "\<forall>p \<in> set ps. 0 \<le> p \<and> p \<le> 100 \<and> p \<in> \<int>"
    unfolding ps using mid(2) by auto
  moreover have "last ps = 100" unfolding ps by simp
  ultimately show ?thesis by blast
qed

lemma half_Ints: "p \<in> \<int> \<Longrightarrow> 2 * (p * (1 / 2)) \<in> \<int>" for p :: real
  by simp

lemma double_Ints: "p \<in> \<int> \<Longrightarrow> 2 * p \<in> \<int>" for p :: real
  by simp

lemma segmentBySilenceAndF0_progress_ok:
  assumes "segmentBySilenceAndF0 buf params = Inr (ps, segs)"
  shows "sorted ps \<and> (\<forall>p \<in> set ps. 0 \<le> p \<and> p \<le> 100 \<and> 2 * p \<in> \<int>)"
proof -
  let ?m = "length (snd (segmentBySilence buf params))"
  let ?p1 = "map (\<lambda>p. p * (1 / 2)) (fst (segmentBySilence buf params))"
  let ?p2 = "map (\<lambda>i. 50 + Math_round ((real i / real ?m) * 50)) [0..<?m]"
  from assms have ps: "ps = ?p1 @ ?p2"
    by (auto simp: segmentBySilenceAndF0_def Let_def split: if_splits sum.splits)
  note s = segmentBySilence_progress_ok [of buf params]
  have "sorted ?p1"
    using s by (simp add: sorted_map sorted_wrt_iff_nth_less sorted_iff_nth_mono_less)
  have r1: "\<forall>p \<in> set ?p1. 0 \<le> p \<and> p \<le> 50 \<and> 2 * p \<in> \<int>"
    using s by auto
  have "sorted ?p2"
    by (intro sorted_map_round) simp_all
  have r2: "\<forall>p \<in> set ?p2. 50 \<le> p \<and> p \<le> 100 \<and> 2 * p \<in> \<int>"
  proof
    fix p assume "p \<in> set ?p2"
    then obtain i where i: "i < ?m" and p: "p = 50 + Math_round ((real i / real ?m) * 50)"
      by auto
    from scaled_index_range [of 50 i ?m] i
    have "0 \<le> (real i / real ?m) * 50 \<and> (real i / real ?m) * 50 \<le> of_int 50" by simp
    with Math_round_bounds [of "(real i / real ?m) * 50" 50] p
    show "50 \<le> p \<and> p \<le> 100 \<and> 2 * p \<in> \<int>"
      by (simp add: Math_round_Ints double_Ints)
  qed
  have "sorted ps"
    unfolding ps sorted_append using \<open>sorted ?p1\<close> \<open>sorted ?p2\<close> r1 r2 by force
  moreover have "\<forall>p \<in> set ps. 0 \<le> p \<and> p \<le> 100 \<and> 2 * p \<in> \<int>"
    unfolding ps using r1 r2 by force
  ultimately show ?thesis by blast
qed

lemma run_strategy_progress:
  assumes "run_strategy this strategy params = Returns (ps, segs)"
  shows "sorted ps \<and> (\<forall>p \<in> set ps. 0 \<le> p \<and> p \<le> 100 \<and> 2 * p \<in> \<int>) \<and>
         (strategy \<noteq> ''silence_f0'' \<and> strategy \<noteq> ''sliding_window'' \<longrightarrow>
            (\<forall>p \<in> set ps. p \<in> \<int>)) \<and>
         (strategy = ''vad_clustering'' \<longrightarrow> last ps = 100)"
proof -
  consider (silence) "strategy = ''silence''" | (f0) "strategy = ''silence_f0''"
    | (vad) "strategy = ''vad_clustering''" | (window) "strategy = ''sliding_window''"
    | (other) "strategy \<noteq> ''silence''" "strategy \<noteq> ''silence_f0''"
        "strategy \<noteq> ''vad_clustering''" "strategy \<noteq> ''sliding_window''"
    by blast
  then show ?thesis
  proof cases
    case silence
    with assms obtain buf where "segmentBySilence buf params = (ps, segs)"
      by (auto simp: run_strategy_def split: option.splits)
    with segmentBySilence_progress_ok [of buf params] silence show ?thesis
      by (auto simp: double_Ints)
  next
    case f0
    with assms obtain buf where "segmentBySilenceAndF0 buf params = Inr (ps, segs)"
      by (auto simp: run_strategy_def split: option.splits sum.splits)
    from segmentBySilenceAndF0_progress_ok [OF this] f0 show ?thesis by simp
  next
    case vad
    with assms obtain buf where "segmentByVADClustering buf params = Some (ps, segs)"
      by (auto simp: run_strategy_def split: option.splits)
    from segmentByVADClustering_progress_ok [OF this] vad show ?thesis
      by (auto simp: double_Ints)
  next
    case window
    with assms obtain buf where "segmentBySilenceAndF0 buf params = Inr (ps, segs)"
      by (auto simp: run_strategy_def segmentBySlidingWindow_def split: option.splits sum.splits)
    from segmentBySilenceAndF0_progress_ok [OF this] window show ?thesis by simp
  next
    case other
    with assms have "ps = []" by (simp add: run_strategy_def)
    with other show ?thesis by simp
  qed
qed

lemma runAutoSegmentation_Returns:
  assumes "runAutoSegmentation this strategy params ids = Returns r"
  shows "\<exists>segs. run_strategy this strategy params = Returns (rr_progress r, segs) \<and>
                rr_bar r = [0] @ rr_progress r @ [100]"
  using assms
  by (auto simp: runAutoSegmentation_def Let_def split: outcome.splits prod.splits)

text \<open>
  Claim C8, as the code has it. In every run of \<^verbatim>\<open>runAutoSegmentation\<close> that returns, the
  values given to the progress callback never decrease and lie between 0 and 100. They
  are integers, except under the strategies \<^verbatim>\<open>silence_f0\<close> and \<^verbatim>\<open>sliding_window\<close>, which
  halve the values of the silence scan: there they are integer multiples of one half. The
  strategy \<^verbatim>\<open>vad_clustering\<close> ends with a callback of 100. The progress bar itself is
  set to 0 before the strategy, to each callback value, and to 100 by the orchestrator
  after the segments are created and before the run returns: its values never decrease
  and the last one is 100.
\<close>

theorem runAutoSegmentation_progress:
  assumes "runAutoSegmentation this strategy params ids = Returns r"
  shows "sorted (rr_progress r) \<and>
         (\<forall>p \<in> set (rr_progress r). 0 \<le> p \<and> p \<le> 100 \<and> 2 * p \<in> \<int>) \<and>
         (strategy \<noteq> ''silence_f0'' \<and> strategy \<noteq> ''sliding_window'' \<longrightarrow>
            (\<forall>p \<in> set (rr_progress r). p \<in> \<int>)) \<and>
         (strategy = ''vad_clustering'' \<longrightarrow> last (rr_progress r) = 100) \<and>
         rr_bar r = [0] @ rr_progress r @ [100] \<and>
         sorted (rr_bar r) \<and> last (rr_bar r) = 100"
proof -
  from runAutoSegmentation_Returns [OF assms]
  obtain segs where run: "run_strategy this strategy params = Returns (rr_progress r, segs)"
    and bar: "rr_bar r = [0] @ rr_progress r @ [100]" by blast
  note ok = run_strategy_progress [OF run]
  have "sorted (rr_bar r)"
    unfolding bar using ok by (auto simp: sorted_append)
  moreover have "last (rr_bar r) = 100" unfolding bar by simp
  ultimately show ?thesis using ok bar by blast
qed

lemma loud_silence_f0_run:
  "runAutoSegmentation loud_app ''silence_f0'' inverted_params ids =
     Returns \<lparr>rr_segments = [\<lparr>ps_start = 0, ps_end = 1, ps_speaker = Spk 1, ps_f0 = None\<rparr>],
              rr_app = loud_app\<lparr>segments :=
                [\<lparr>seg_id = ids 0, seg_start = 0, seg_end = 1, seg_speaker = 1,
                  seg_transcription = [], seg_color = Some 0\<rparr>]\<rparr>,
              rr_progress = [0, 50], rr_bar = [0, 0, 50, 100]\<rparr>"
proof -
  have h: "0 < sampleRate loud_buffer"
    "0 < f0Max inverted_params" "f0Max inverted_params \<le> f0Min inverted_params"
    by (simp_all add: loud_buffer_def inverted_params_def)
  have buf: "audioBuffer loud_app = Some loud_buffer" and none: "segments loud_app = []"
    by (simp_all add: loud_app_def new_app_def)
  show ?thesis
    by (simp add: runAutoSegmentation_def run_strategy_def buf none
        segmentBySilenceAndF0_inverted_bounds [OF h] fold_createSegment
        segmentBySilence_loud_buffer segmentBySilence_loud_progress
        Math_round_def speakerColor_def js_rem_def speakerColors_length_def)
qed

theorem runAutoSegmentation_progress_witness:
  "runAutoSegmentation loud_app ''silence_f0'' inverted_params (\<lambda>k. ''seg_1'') =
     Returns \<lparr>rr_segments = [\<lparr>ps_start = 0, ps_end = 1, ps_speaker = Spk 1, ps_f0 = None\<rparr>],
              rr_app = loud_app\<lparr>segments :=
                [\<lparr>seg_id = ''seg_1'', seg_start = 0, seg_end = 1, seg_speaker = 1,
                  seg_transcription = [], seg_color = Some 0\<rparr>]\<rparr>,
              rr_progress = [0, 50], rr_bar = [0, 0, 50, 100]\<rparr> \<and>
   sorted [0, 50 :: real] \<and> sorted [0, 0, 50, 100 :: real] \<and> last [0, 0, 50, 100 :: real] = 100"
  using runAutoSegmentation_progress [OF loud_silence_f0_run [of "\<lambda>k. ''seg_1''"]]
    loud_silence_f0_run [of "\<lambda>k. ''seg_1''"]
  by simp

lemma stride_filter_multiples:
  "0 < s \<Longrightarrow> filter (at_stride s) [0..<k * s] = map (\<lambda>i. i * s) [0..<k]"
proof (induction k)
  case 0
  show ?case by simp
next
  case (Suc k)
  have split: "[0..<Suc k * s] = [0..<k * s] @ [k * s..<Suc (k * s)] @ [Suc (k * s)..<Suc k * s]"
    using Suc.prems by (simp add: upt_split [of 0 "k * s" "s + k * s"] upt_rec [of "k * s"])
  have none: "filter (at_stride s) [Suc (k * s)..<Suc k * s] = []"
  proof (rule stride_filter_empty, rule ballI)
    fix j assume "j \<in> {Suc (k * s)..<Suc k * s}"
    then obtain d where d: "j = k * s + d" "0 < d" "d < s"
      by (auto simp: le_iff_add)
    then have "j mod s = d" by simp
    with d show "\<not> at_stride s j" by (simp add: at_stride_def)
  qed
  have "at_stride s (k * s)" using Suc.prems by (simp add: at_stride_def)
  with Suc split none show ?case by simp
qed

lemma long_silence_progress:
  "fst (segmentBySilence long_silence params) = [0, 33, 67]"
proof -
  have "[0..<3] = [0, 1, 2::nat]" by (simp add: upt_rec)
  with stride_filter_multiples [of 100000 3]
  have "filter (at_stride 100000) [0..<3 * 100000] = [0, 100000, 200000]" by simp
  moreover have "length (channelData long_silence) = 3 * 100000"
    by (simp add: long_silence_def)
  ultimately have "fst (segmentBySilence long_silence params) =
      map (\<lambda>j. Math_round ((real j / real (3 * 100000 :: nat)) * 100)) [0, 100000, 200000]"
    by (simp only: segmentBySilence_def segmentBySilence_every_progress)
  then show ?thesis by (simp add: Math_round_def round_def)
qed

lemma long_silence_segments:
  "silenceThreshold params \<ge> 0 \<Longrightarrow> snd (segmentBySilence long_silence params) = []"
  unfolding segmentBySilence_def
  by (rule segmentBySilence_every_quiet) (simp add: long_silence_def)

lemma half_not_integer: "(33 / 2 :: real) \<notin> \<int>"
proof
  assume "(33 / 2 :: real) \<in> \<int>"
  then obtain k :: int where "(33 / 2 :: real) = of_int k" by (rule Ints_cases)
  then have "(of_int (2 * k) :: real) = of_int 33" by simp
  then have "2 * k = 33" by (simp only: of_int_eq_iff)
  then show False by presburger
qed

theorem runAutoSegmentation_progress_halves_and_no_final_100:
  "(\<exists>r. runAutoSegmentation loud_app ''silence'' inverted_params (\<lambda>k. ''seg_1'') = Returns r \<and>
        rr_progress r = [0] \<and> last (rr_progress r) \<noteq> 100) \<and>
   (\<exists>r. runAutoSegmentation silent_app ''silence_f0'' (silence_params (1 / 10) (3 / 10) 200)
          (\<lambda>k. ''seg_1'') = Returns r \<and>
        rr_progress r = [0, 33 / 2, 67 / 2] \<and> (33 / 2 :: real) \<notin> \<int>)"
proof -
  have "segmentBySilence loud_buffer inverted_params =
      ([0], [\<lparr>ps_start = 0, ps_end = 1, ps_speaker = Spk 1, ps_f0 = None\<rparr>])"
    using segmentBySilence_loud_progress segmentBySilence_loud_buffer by (simp add: prod_eq_iff)
  moreover have "audioBuffer loud_app = Some loud_buffer" by (simp add: loud_app_def new_app_def)
  ultimately have a: "\<exists>r. runAutoSegmentation loud_app ''silence'' inverted_params (\<lambda>k. ''seg_1'')
        = Returns r \<and> rr_progress r = [0] \<and> last (rr_progress r) \<noteq> 100"
    by (simp add: runAutoSegmentation_def run_strategy_def Let_def)
  have buf: "audioBuffer silent_app = Some long_silence" by (simp add: silent_app_def new_app_def)
  let ?p = "silence_params (1 / 10) (3 / 10) 200"
  have "silenceThreshold ?p \<ge> 0" by (simp add: silence_params_def)
  from long_silence_segments [OF this] long_silence_progress [of ?p]
  have "segmentBySilenceAndF0 long_silence ?p = Inr ([0, 33 / 2, 67 / 2], [])"
    by (simp add: segmentBySilenceAndF0_def Let_def f0_values_def)
  with buf have "\<exists>r. runAutoSegmentation silent_app ''silence_f0'' ?p (\<lambda>k. ''seg_1'') = Returns r \<and>
        rr_progress r = [0, 33 / 2, 67 / 2]"
    by (simp add: runAutoSegmentation_def run_strategy_def Let_def)
  with a half_not_integer show ?thesis by simp
qed

end
